theory Spec2Isabelle
  imports Complex_Main
begin

section \<open>Data model of minesweeper.py\<close>

text \<open>
  Python exceptions that the modelled code can raise: an index outside a list
  (\<^verbatim>\<open>field[r][c]\<close>, \<^verbatim>\<open>buttons[r][c]\<close>) and the \<^verbatim>\<open>ValueError\<close> of
  \<^verbatim>\<open>list.remove\<close>, \<^verbatim>\<open>random.sample\<close> and of the settings validation.
\<close>

datatype error = IndexError | ValueError

text \<open>
  class Cell.  A cell object is identified with its position: \<^verbatim>\<open>do_field\<close> builds
  \<^verbatim>\<open>field[row][col] = Cell(col=col, row=row)\<close> and nothing reassigns \<^verbatim>\<open>row\<close> or
  \<^verbatim>\<open>col\<close>, so a method call on a cell is modelled as a call at its coordinates.
\<close>

record cell =
  bomb :: bool
  revealed :: bool
  flagged :: bool
  neighbor_bombs :: nat

text \<open>The rendering of one grid button: the options the game code configures.\<close>

record button =
  fg_color :: "string option"
  text_color :: "string option"
  btn_text :: string

text \<open>
  class Config, as the game code reads it through its properties: the current
  difficulty key, the dimensions and mine count of that difficulty, its best
  time, and the colour lookup \<^verbatim>\<open>theme(key)\<close> of the current theme (a missing key
  gives \<^verbatim>\<open>None\<close>) with its nested \<^verbatim>\<open>num_colors\<close> table.
\<close>

record config =
  current_diff :: string
  width :: nat
  height :: nat
  bombs :: nat
  best_time :: int
  theme :: "string \<Rightarrow> string option"
  num_colors :: "string \<Rightarrow> string option"

text \<open>
  class GameState together with the widgets its methods write to: the grid of
  buttons, the label of the remaining mines, the list of end-of-game popups
  opened so far (\<open>True\<close> for a win) and the last document written to
  config.json by the game.
\<close>

record game =
  cfg :: config
  saved :: "config option"
  first_click :: bool
  running :: bool
  time_elapsed :: int
  def_zone :: "int list"
  field :: "cell list list"
  buttons :: "button list list"
  all_cords :: "int list"
  danger_cords :: "int list"
  mines :: int
  mines_label :: string
  popups :: "bool list"

subsection \<open>Two-dimensional lists\<close>

text \<open>
  \<^verbatim>\<open>grid[r][c]\<close> for indices that the callers have checked to be non-negative
  (every call site is guarded by \<^verbatim>\<open>0 <= r\<close>, \<^verbatim>\<open>0 <= c\<close> or iterates a \<^verbatim>\<open>range\<close>);
  an index beyond the list raises IndexError, here \<open>None\<close>.
\<close>

definition grid_get :: "'a list list \<Rightarrow> int \<Rightarrow> int \<Rightarrow> 'a option" where
  "grid_get f r c =
     (if 0 \<le> r \<and> r < int (length f) \<and> 0 \<le> c \<and> c < int (length (f ! nat r))
      then Some (f ! nat r ! nat c) else None)"

definition grid_set :: "'a list list \<Rightarrow> int \<Rightarrow> int \<Rightarrow> 'a \<Rightarrow> 'a list list" where
  "grid_set f r c v = f[nat r := (f ! nat r)[nat c := v]]"

text \<open>A loop whose body may raise: the first exception ends it.\<close>

fun foldE :: "('a \<Rightarrow> 's \<Rightarrow> error + 's) \<Rightarrow> 'a list \<Rightarrow> 's \<Rightarrow> error + 's" where
  "foldE f [] s = Inr s"
| "foldE f (x # xs) s = (case f x s of Inl e \<Rightarrow> Inl e | Inr s' \<Rightarrow> foldE f xs s')"

text \<open>The bounds test \<^verbatim>\<open>0 <= c < config.width and 0 <= r < config.height\<close>.\<close>

definition in_bounds :: "config \<Rightarrow> int \<Rightarrow> int \<Rightarrow> bool" where
  "in_bounds cf r c = (0 \<le> c \<and> c < int (width cf) \<and> 0 \<le> r \<and> r < int (height cf))"

text \<open>
  The offsets \<open>(dr, dc)\<close> in the order of
  \<^verbatim>\<open>for dc in [-1, 0, 1]: for dr in [-1, 0, 1]\<close> (safe_zone, on_click, reveal) and of
  \<^verbatim>\<open>for dr in [-1, 0, 1]: for dc in [-1, 0, 1]\<close> (calculate_neighbor_bombs, try_chord).
\<close>

definition offs_dc_dr :: "(int \<times> int) list" where
  "offs_dc_dr = [(-1, -1), (0, -1), (1, -1), (-1, 0), (0, 0), (1, 0), (-1, 1), (0, 1), (1, 1)]"

definition offs_dr_dc :: "(int \<times> int) list" where
  "offs_dr_dc = [(-1, -1), (-1, 0), (-1, 1), (0, -1), (0, 0), (0, 1), (1, -1), (1, 0), (1, 1)]"

section \<open>GameState: new game, safe zone, mine placement, neighbour counts\<close>

text \<open>GameState.reset\_game.\<close>

definition reset_game :: "game \<Rightarrow> game" where
  "reset_game g = g\<lparr>first_click := True, running := False, time_elapsed := 0,
     def_zone := [], field := [], buttons := [], all_cords := [], danger_cords := [],
     mines := int (bombs (cfg g))\<rparr>"

text \<open>
  FieldFrame.\_\_init\_\_ with GameState.do\_field: a fresh grid of cells and of
  buttons of the configured size.
\<close>

definition new_cell :: cell where
  "new_cell = \<lparr>bomb = False, revealed = False, flagged = False, neighbor_bombs = 0\<rparr>"

definition new_button :: "config \<Rightarrow> button" where
  "new_button cf = \<lparr>fg_color = theme cf ''button_color'',
     text_color = theme cf ''text_color'', btn_text = ''''\<rparr>"

definition do_field :: "game \<Rightarrow> game" where
  "do_field g = g\<lparr>
     buttons := replicate (height (cfg g)) (replicate (width (cfg g)) (new_button (cfg g))),
     field := replicate (height (cfg g)) (replicate (width (cfg g)) new_cell)\<rparr>"

text \<open>GameState.safe\_zone: appends the linear coordinates of the clamped 3x3 block.\<close>

definition safe_zone :: "int \<Rightarrow> int \<Rightarrow> game \<Rightarrow> game" where
  "safe_zone row col g = g\<lparr>def_zone := def_zone g @
     map (\<lambda>(dr, dc). (row + dr) * int (width (cfg g)) + (col + dc))
       (filter (\<lambda>(dr, dc). in_bounds (cfg g) (row + dr) (col + dc)) offs_dc_dr)\<rparr>"

text \<open>
  \<^verbatim>\<open>random.sample(population, k)\<close> raises ValueError when \<open>k\<close> exceeds the
  population and otherwise returns the elements at \<open>k\<close> distinct positions.  The
  positions drawn are the parameter \<open>idx\<close>; \<open>choice_ok\<close> says that \<open>idx\<close> is a
  possible draw.
\<close>

definition choice_ok :: "'a list \<Rightarrow> nat \<Rightarrow> nat list \<Rightarrow> bool" where
  "choice_ok pop k idx = (length idx = k \<and> distinct idx \<and> (\<forall>i \<in> set idx. i < length pop))"

definition sample :: "'a list \<Rightarrow> nat \<Rightarrow> nat list \<Rightarrow> error + 'a list" where
  "sample pop k idx = (if length pop < k then Inl ValueError else Inr (map (\<lambda>i. pop ! i) idx))"

text \<open>\<^verbatim>\<open>self.field[r][c].bomb = True\<close>\<close>

definition set_bomb :: "int \<times> int \<Rightarrow> game \<Rightarrow> error + game" where
  "set_bomb rc g = (case grid_get (field g) (fst rc) (snd rc) of
       None \<Rightarrow> Inl IndexError
     | Some cl \<Rightarrow> Inr (g\<lparr>field := grid_set (field g) (fst rc) (snd rc) (cl\<lparr>bomb := True\<rparr>)\<rparr>))"

text \<open>
  GameState.place\_bombs.  \<^verbatim>\<open>list(set(a) - set(b))\<close> is modelled by a filter: the
  order of the result is not fixed by Python, and nothing below depends on it
  (\<open>all_cords\<close> has no duplicates, the draw is arbitrary).
\<close>

definition place_bombs :: "nat list \<Rightarrow> game \<Rightarrow> error + game" where
  "place_bombs idx g =
     (let all = map int [0 ..< height (cfg g) * width (cfg g)];
          danger = filter (\<lambda>i. i \<notin> set (def_zone g)) all
      in case sample danger (bombs (cfg g)) idx of
           Inl e \<Rightarrow> Inl e
         | Inr bomb_coords \<Rightarrow>
             foldE set_bomb
               (map (\<lambda>cell. (cell div int (width (cfg g)), cell mod int (width (cfg g)))) bomb_coords)
               (g\<lparr>danger_cords := danger,
                   all_cords := filter (\<lambda>i. i \<notin> set bomb_coords) all\<rparr>))"

text \<open>GameState.calculate\_neighbor\_bombs: the inner count, then the two loops.\<close>

fun count_bombs_around :: "game \<Rightarrow> int \<Rightarrow> int \<Rightarrow> (int \<times> int) list \<Rightarrow> nat \<Rightarrow> error + nat" where
  "count_bombs_around g row col [] count = Inr count"
| "count_bombs_around g row col ((dr, dc) # ds) count =
     (let nr = row + dr; nc = col + dc in
      if 0 \<le> nr \<and> nr < int (height (cfg g)) \<and> 0 \<le> nc \<and> nc < int (width (cfg g)) then
        (case grid_get (field g) nr nc of
           None \<Rightarrow> Inl IndexError
         | Some cl \<Rightarrow> count_bombs_around g row col ds (if bomb cl then count + 1 else count))
      else count_bombs_around g row col ds count)"

definition calc_cell :: "int \<times> int \<Rightarrow> game \<Rightarrow> error + game" where
  "calc_cell rc g = (case grid_get (field g) (fst rc) (snd rc) of
       None \<Rightarrow> Inl IndexError
     | Some cl \<Rightarrow>
         if \<not> bomb cl then
           (case count_bombs_around g (fst rc) (snd rc) offs_dr_dc 0 of
              Inl e \<Rightarrow> Inl e
            | Inr count \<Rightarrow> Inr (g\<lparr>field := grid_set (field g) (fst rc) (snd rc)
                                   (cl\<lparr>neighbor_bombs := count\<rparr>)\<rparr>))
         else Inr g)"

definition positions :: "config \<Rightarrow> (int \<times> int) list" where
  "positions cf = concat (map (\<lambda>row. map (\<lambda>col. (int row, int col)) [0 ..< width cf])
                           [0 ..< height cf])"

definition calculate_neighbor_bombs :: "game \<Rightarrow> error + game" where
  "calculate_neighbor_bombs g = foldE calc_cell (positions (cfg g)) g"

section \<open>Cell.reveal and Cell.try\_chord\<close>

text \<open>\<^verbatim>\<open>str(n)\<close> for a non-negative integer.\<close>

fun str_nat :: "nat \<Rightarrow> string" where
  "str_nat n = (if n < 10 then [char_of (48 + n)]
                else str_nat (n div 10) @ [char_of (48 + n mod 10)])"

text \<open>\<^verbatim>\<open>buttons[row][col].configure(...)\<close>\<close>

definition configure_button :: "int \<Rightarrow> int \<Rightarrow> (button \<Rightarrow> button) \<Rightarrow> game \<Rightarrow> error + game" where
  "configure_button r c f g = (case grid_get (buttons g) r c of
       None \<Rightarrow> Inl IndexError
     | Some b \<Rightarrow> Inr (g\<lparr>buttons := grid_set (buttons g) r c (f b)\<rparr>))"

text \<open>
  GameState.check\_best: a new record is stored in the configuration and the
  configuration is written to config.json.
\<close>

definition check_best :: "game \<Rightarrow> game" where
  "check_best g =
     (if current_diff (cfg g) \<noteq> ''custom'' \<and> time_elapsed g < best_time (cfg g)
      then g\<lparr>cfg := (cfg g)\<lparr>best_time := time_elapsed g\<rparr>,
              saved := Some ((cfg g)\<lparr>best_time := time_elapsed g\<rparr>)\<rparr>
      else g)"

text \<open>InfoFrame.stop\_timer.\<close>

definition stop_timer :: "game \<Rightarrow> game" where
  "stop_timer g = g\<lparr>running := False\<rparr>"

text \<open>
  The win outcome of reveal: the EndGamePopup with \<^verbatim>\<open>win=True\<close>, the best-time
  check and the timer stop.
\<close>

definition win_outcome :: "game \<Rightarrow> game" where
  "win_outcome g = stop_timer (check_best (g\<lparr>popups := popups g @ [True]\<rparr>))"

text \<open>
  The loss outcome of reveal: the EndGamePopup with \<^verbatim>\<open>win=False\<close>, the timer stop
  and the button painted in the mine colour.
\<close>

definition loss_outcome :: "int \<Rightarrow> int \<Rightarrow> game \<Rightarrow> error + game" where
  "loss_outcome r c g =
     configure_button r c (\<lambda>b. b\<lparr>fg_color := theme (cfg g) ''mines_color''\<rparr>)
       (stop_timer (g\<lparr>popups := popups g @ [False]\<rparr>))"

text \<open>
  The body of reveal for a hidden, unflagged cell without a mine, up to the win
  test: mark the cell, remove its linear coordinate from \<open>all_cords\<close>
  (\<^verbatim>\<open>list.remove\<close> raises ValueError when it is absent), render the button, and
  open the win popup when \<open>all_cords\<close> has become empty.
\<close>

definition mark_revealed :: "int \<Rightarrow> int \<Rightarrow> cell \<Rightarrow> game \<Rightarrow> error + game" where
  "mark_revealed r c cl g =
     (let g1 = g\<lparr>field := grid_set (field g) r c (cl\<lparr>revealed := True\<rparr>)\<rparr>;
          lin = r * int (width (cfg g)) + c
      in if lin \<notin> set (all_cords g1) then Inl ValueError
         else
           (case configure_button r c
                   (\<lambda>b. if neighbor_bombs cl \<ge> 1
                        then b\<lparr>fg_color := theme (cfg g) ''pressed_color'',
                               text_color := (case num_colors (cfg g) (str_nat (neighbor_bombs cl)) of
                                                Some col \<Rightarrow> Some col
                                              | None \<Rightarrow> theme (cfg g) ''text_color''),
                               btn_text := str_nat (neighbor_bombs cl)\<rparr>
                        else b\<lparr>fg_color := theme (cfg g) ''pressed_color''\<rparr>)
                   (g1\<lparr>all_cords := remove1 lin (all_cords g1)\<rparr>) of
              Inl e \<Rightarrow> Inl e
            | Inr g2 \<Rightarrow> Inr (if all_cords g2 = [] then win_outcome g2 else g2)))"

text \<open>The count of flagged cells in the clamped 3x3 block of try\_chord.\<close>

fun count_flagged_around :: "game \<Rightarrow> int \<Rightarrow> int \<Rightarrow> (int \<times> int) list \<Rightarrow> nat \<Rightarrow> error + nat" where
  "count_flagged_around g row col [] count = Inr count"
| "count_flagged_around g row col ((dr, dc) # ds) count =
     (let nr = row + dr; nc = col + dc in
      if 0 \<le> nr \<and> nr < int (height (cfg g)) \<and> 0 \<le> nc \<and> nc < int (width (cfg g)) then
        (case grid_get (field g) nr nc of
           None \<Rightarrow> Inl IndexError
         | Some cl \<Rightarrow> count_flagged_around g row col ds (if flagged cl then count + 1 else count))
      else count_flagged_around g row col ds count)"

text \<open>The number of cells not yet revealed: the quantity that bounds the recursion.\<close>

definition hidden_count :: "game \<Rightarrow> nat" where
  "hidden_count g = sum_list (map (\<lambda>row. length (filter (\<lambda>cl. \<not> revealed cl) row)) (field g))"

text \<open>
  Cell.reveal and Cell.try\_chord with their two neighbour loops.  \<open>reveal r c\<close>
  is the method called on the cell object \<^verbatim>\<open>field[r][c]\<close>; \<open>reveal_nbrs\<close> is the
  flood-fill loop of reveal and \<open>chord_nbrs\<close> the reveal loop of try\_chord, each
  over the offsets still to visit.
\<close>

function reveal :: "int \<Rightarrow> int \<Rightarrow> game \<Rightarrow> error + game"
  and reveal_nbrs :: "int \<Rightarrow> int \<Rightarrow> (int \<times> int) list \<Rightarrow> game \<Rightarrow> error + game"
  and try_chord :: "int \<Rightarrow> int \<Rightarrow> game \<Rightarrow> error + game"
  and chord_nbrs :: "int \<Rightarrow> int \<Rightarrow> (int \<times> int) list \<Rightarrow> game \<Rightarrow> error + game"
where
  "reveal r c g =
     (case grid_get (field g) r c of
        None \<Rightarrow> Inl IndexError
      | Some cl \<Rightarrow>
          if \<not> bomb cl \<and> \<not> revealed cl then
            (if \<not> flagged cl then
               (case mark_revealed r c cl g of
                  Inl e \<Rightarrow> Inl e
                | Inr g1 \<Rightarrow>
                    if neighbor_bombs cl = 0 then reveal_nbrs r c offs_dc_dr g1 else Inr g1)
             else Inr g)
          else if revealed cl then try_chord r c g
          else if bomb cl \<and> \<not> flagged cl then loss_outcome r c g
          else Inr g)"
| "reveal_nbrs r c [] g = Inr g"
| "reveal_nbrs r c (d # ds) g =
     (if in_bounds (cfg g) (r + fst d) (c + snd d) then
        (case grid_get (field g) (r + fst d) (c + snd d) of
           None \<Rightarrow> Inl IndexError
         | Some n \<Rightarrow>
             if \<not> revealed n then
               (case reveal (r + fst d) (c + snd d) g of
                  Inl e \<Rightarrow> Inl e
                | Inr g' \<Rightarrow> reveal_nbrs r c ds g')
             else reveal_nbrs r c ds g)
      else reveal_nbrs r c ds g)"
| "try_chord r c g =
     (case grid_get (field g) r c of
        None \<Rightarrow> Inl IndexError
      | Some cl \<Rightarrow>
          if \<not> revealed cl then Inr g
          else
            (case count_flagged_around g r c offs_dr_dc 0 of
               Inl e \<Rightarrow> Inl e
             | Inr flagged_count \<Rightarrow>
                 if flagged_count = neighbor_bombs cl then chord_nbrs r c offs_dr_dc g
                 else Inr g))"
| "chord_nbrs r c [] g = Inr g"
| "chord_nbrs r c (d # ds) g =
     (if in_bounds (cfg g) (r + fst d) (c + snd d) then
        (case grid_get (field g) (r + fst d) (c + snd d) of
           None \<Rightarrow> Inl IndexError
         | Some n \<Rightarrow>
             if \<not> revealed n \<and> \<not> flagged n then
               (case reveal (r + fst d) (c + snd d) g of
                  Inl e \<Rightarrow> Inl e
                | Inr g' \<Rightarrow> chord_nbrs r c ds g')
             else chord_nbrs r c ds g)
      else chord_nbrs r c ds g)"
  by pat_completeness auto

subsection \<open>Termination of the recursive reveal\<close>

text \<open>
  The measure of a call: the number of hidden cells of the state, then the
  position of the call in the chain reveal (on a revealed cell), try\_chord,
  neighbour loop, reveal (on a hidden cell).
\<close>

fun call_rank :: "((int \<times> int \<times> game) + (int \<times> int \<times> (int \<times> int) list \<times> game)) +
                  ((int \<times> int \<times> game) + (int \<times> int \<times> (int \<times> int) list \<times> game)) \<Rightarrow> nat \<times> nat" where
  "call_rank (Inl (Inl (r, c, g))) =
     (hidden_count g, case grid_get (field g) r c of
                        None \<Rightarrow> 0 | Some cl \<Rightarrow> if revealed cl then 12 else 0)"
| "call_rank (Inl (Inr (r, c, ds, g))) = (hidden_count g, 1 + length ds)"
| "call_rank (Inr (Inl (r, c, g))) = (hidden_count g, 11)"
| "call_rank (Inr (Inr (r, c, ds, g))) = (hidden_count g, 1 + length ds)"

lemma grid_get_SomeD:
  "grid_get f r c = Some x \<Longrightarrow> 0 \<le> r \<and> nat r < length f \<and> 0 \<le> c \<and> nat c < length (f ! nat r) \<and> x = f ! nat r ! nat c"
  by (auto simp: grid_get_def split: if_splits)

lemma count_list_update:
  "i < length xs \<Longrightarrow> length (filter P (xs[i := y])) + (if P (xs ! i) then 1 else 0)
     = length (filter P xs) + (if P y then 1 else 0)"
proof (induction xs arbitrary: i)
  case Nil then show ?case by simp
next
  case (Cons a xs) then show ?case by (cases i) auto
qed

lemma sum_list_update_nat:
  "i < length (xs::nat list) \<Longrightarrow> sum_list (xs[i := y]) + xs ! i = sum_list xs + y"
proof (induction xs arbitrary: i)
  case Nil then show ?case by simp
next
  case (Cons a xs) then show ?case by (cases i) auto
qed

lemma grid_count_update:
  assumes "grid_get f r c = Some x"
  shows "sum_list (map (\<lambda>row. length (filter P row)) (grid_set f r c y)) + (if P x then 1 else 0)
       = sum_list (map (\<lambda>row. length (filter P row)) f) + (if P y then 1 else 0)"
proof -
  from grid_get_SomeD[OF assms] have r: "nat r < length f" and c: "nat c < length (f ! nat r)"
    and x: "x = f ! nat r ! nat c" by auto
  let ?m = "\<lambda>row. length (filter P row)"
  have "map ?m (grid_set f r c y) = (map ?m f)[nat r := ?m ((f ! nat r)[nat c := y])]"
    by (simp add: grid_set_def map_update)
  moreover have "sum_list ((map ?m f)[nat r := ?m ((f ! nat r)[nat c := y])]) + (map ?m f) ! nat r
      = sum_list (map ?m f) + ?m ((f ! nat r)[nat c := y])"
    using r by (intro sum_list_update_nat) simp
  moreover have "?m ((f ! nat r)[nat c := y]) + (if P x then 1 else 0) = ?m (f ! nat r) + (if P y then 1 else 0)"
    using count_list_update[OF c, of P y] x by simp
  ultimately show ?thesis using r by simp
qed

lemma configure_button_field:
  "configure_button r c f g = Inr g' \<Longrightarrow> field g' = field g"
  by (auto simp: configure_button_def split: option.splits)

lemma win_outcome_field: "field (win_outcome g) = field g"
  by (simp add: win_outcome_def stop_timer_def check_best_def)

lemma mark_revealed_field:
  "mark_revealed r c cl g = Inr g1 \<Longrightarrow> field g1 = grid_set (field g) r c (cl\<lparr>revealed := True\<rparr>)"
  by (auto simp: mark_revealed_def Let_def win_outcome_field split: if_splits sum.splits
      dest!: configure_button_field)

lemma mark_revealed_hidden_count:
  assumes "mark_revealed r c cl g = Inr g1" "grid_get (field g) r c = Some cl" "\<not> revealed cl"
  shows "hidden_count g1 < hidden_count g"
  using grid_count_update[OF assms(2), of "\<lambda>cl. \<not> revealed cl" "cl\<lparr>revealed := True\<rparr>"] assms(3)
  by (simp add: hidden_count_def mark_revealed_field[OF assms(1)])

lemma loss_outcome_field: "loss_outcome r c g = Inr g' \<Longrightarrow> field g' = field g"
  by (auto simp: loss_outcome_def stop_timer_def dest!: configure_button_field)

lemma reveal_hidden_count_dom:
  "reveal_reveal_nbrs_try_chord_chord_nbrs_dom (Inl (Inl (r, c, g))) \<Longrightarrow>
     reveal r c g = Inr g' \<Longrightarrow> hidden_count g' \<le> hidden_count g"
  "reveal_reveal_nbrs_try_chord_chord_nbrs_dom (Inl (Inr (r, c, ds, g))) \<Longrightarrow>
     reveal_nbrs r c ds g = Inr g' \<Longrightarrow> hidden_count g' \<le> hidden_count g"
  "reveal_reveal_nbrs_try_chord_chord_nbrs_dom (Inr (Inl (r, c, g))) \<Longrightarrow>
     try_chord r c g = Inr g' \<Longrightarrow> hidden_count g' \<le> hidden_count g"
  "reveal_reveal_nbrs_try_chord_chord_nbrs_dom (Inr (Inr (r, c, ds, g))) \<Longrightarrow>
     chord_nbrs r c ds g = Inr g' \<Longrightarrow> hidden_count g' \<le> hidden_count g"
proof (induction r c g and r c ds g and r c g and r c ds g arbitrary: g' and g' and g' and g'
    rule: reveal_reveal_nbrs_try_chord_chord_nbrs.pinduct)
  case (1 r c g)
  from "1.prems" "1.hyps" show ?case
    apply (simp add: reveal.psimps split: option.splits if_splits sum.splits)
    subgoal for cl g1
      using "1.IH"(1)[of cl g1 g'] mark_revealed_hidden_count[of r c cl g g1] by simp
    subgoal for cl
      using mark_revealed_hidden_count[of r c cl g g'] by simp
    subgoal for cl using "1.IH"(2)[of cl g'] by simp
    subgoal for cl by (simp add: hidden_count_def loss_outcome_field)
    done
next
  case (2 r c g)
  then show ?case by (simp add: reveal_nbrs.psimps)
next
  case (3 r c d ds g)
  from "3.prems" "3.hyps" "3.IH" show ?case
    by (fastforce simp: reveal_nbrs.psimps split: option.splits if_splits sum.splits
        intro: le_trans)
next
  case (4 r c g)
  from "4.prems" "4.hyps" show ?case
    apply (simp add: try_chord.psimps split: option.splits if_splits sum.splits)
    subgoal for cl using "4.IH"[of cl "neighbor_bombs cl" g'] by simp
    done
next
  case (5 r c g)
  then show ?case by (simp add: chord_nbrs.psimps)
next
  case (6 r c d ds g)
  from "6.prems" "6.hyps" "6.IH" show ?case
    by (fastforce simp: chord_nbrs.psimps split: option.splits if_splits sum.splits
        intro: le_trans)
qed

termination reveal
proof (relation "inv_image (less_than <*lex*> less_than) call_rank", goal_cases)
  case 1 show ?case by (intro wf_inv_image wf_lex_prod wf_less_than)
next
  case (2 r c g cl g1) then show ?case by (simp add: mark_revealed_hidden_count)
next
  case (3 r c g cl) then show ?case by simp
next
  case (4 r c d ds g n) then show ?case by simp
next
  case (5 r c d ds g n g') then show ?case
    using reveal_hidden_count_dom(1)[of "r + fst d" "c + snd d" g g'] by auto
next
  case (6 r c d ds g n) then show ?case by simp
next
  case (7 r c d ds g) then show ?case by simp
next
  case (8 r c g cl k) then show ?case by (simp add: offs_dr_dc_def)
next
  case (9 r c d ds g n) then show ?case by simp
next
  case (10 r c d ds g n g') then show ?case
    using reveal_hidden_count_dom(1)[of "r + fst d" "c + snd d" g g'] by auto
next
  case (11 r c d ds g n) then show ?case by simp
next
  case (12 r c d ds g) then show ?case by simp
qed

section \<open>FieldFrame: flag toggle and click\<close>

text \<open>The text of the remaining-mines label.\<close>

definition mines_text :: "int \<Rightarrow> string" where
  "mines_text m = (if m \<ge> 0 then ''Bombs: '' @ str_nat (nat m) else ''Are you dumb?'')"

text \<open>FieldFrame.set\_flag.\<close>

definition set_flag :: "int \<Rightarrow> int \<Rightarrow> game \<Rightarrow> error + game" where
  "set_flag row col g =
     (case grid_get (field g) row col of
        None \<Rightarrow> Inl IndexError
      | Some cl \<Rightarrow>
          if \<not> revealed cl then
            (let g1 = g\<lparr>field := grid_set (field g) row col (cl\<lparr>flagged := \<not> flagged cl\<rparr>)\<rparr> in
             if \<not> flagged cl then
               (case configure_button row col (\<lambda>b. b\<lparr>fg_color := theme (cfg g) ''flag_color''\<rparr>) g1 of
                  Inl e \<Rightarrow> Inl e
                | Inr g2 \<Rightarrow> Inr (g2\<lparr>mines := mines g2 - 1, mines_label := mines_text (mines g2 - 1)\<rparr>))
             else
               (case configure_button row col (\<lambda>b. b\<lparr>fg_color := theme (cfg g) ''button_color''\<rparr>) g1 of
                  Inl e \<Rightarrow> Inl e
                | Inr g2 \<Rightarrow> Inr (g2\<lparr>mines := mines g2 + 1, mines_label := mines_text (mines g2 + 1)\<rparr>)))
          else Inr g)"

text \<open>
  InfoFrame.start\_timer: the first update\_timer call runs at once and counts
  one second.
\<close>

definition start_timer :: "game \<Rightarrow> game" where
  "start_timer g = (if \<not> running g then g\<lparr>running := True, time_elapsed := time_elapsed g + 1\<rparr> else g)"

text \<open>The auto-reveal loop of the first click.\<close>

definition reveal_zone :: "int \<Rightarrow> int \<Rightarrow> game \<Rightarrow> error + game" where
  "reveal_zone row col g =
     foldE (\<lambda>d s. if in_bounds (cfg s) (row + fst d) (col + snd d)
                   then reveal (row + fst d) (col + snd d) s else Inr s) offs_dc_dr g"

text \<open>FieldFrame.on\_click; \<open>idx\<close> is the draw of \<^verbatim>\<open>random.sample\<close> on a first click.\<close>

definition on_click :: "nat list \<Rightarrow> int \<Rightarrow> int \<Rightarrow> game \<Rightarrow> error + game" where
  "on_click idx row col g =
     (if first_click g then
        (case place_bombs idx ((safe_zone row col g)\<lparr>first_click := False\<rparr>) of
           Inl e \<Rightarrow> Inl e
         | Inr g1 \<Rightarrow>
             (case calculate_neighbor_bombs g1 of
                Inl e \<Rightarrow> Inl e
              | Inr g2 \<Rightarrow> reveal_zone row col (start_timer g2)))
      else reveal row col g)"

section \<open>ConfigFrame.apply\_settings\<close>

text \<open>
  The configuration document that apply\_settings writes to: the current
  difficulty and theme keys and the custom difficulty entry.  The other keys of
  the document are not touched by apply\_settings.
\<close>

record doc =
  doc_current_diff :: string
  doc_current_theme :: string
  custom_height :: int
  custom_width :: int
  custom_mines :: int

text \<open>
  The state apply\_settings works on: the in-memory document of the Config
  object, the document stored in config.json, and the messages of the error
  dialogs shown.
\<close>

record settings =
  conf :: doc
  disk :: doc
  dialogs :: "string list"

text \<open>
  \<^verbatim>\<open>str.isdigit\<close> and \<^verbatim>\<open>int\<close> on strings of 8-bit characters: non-empty and all
  characters between \<open>0\<close> (code 48) and \<open>9\<close> (code 57).
\<close>

definition isdigit :: "string \<Rightarrow> bool" where
  "isdigit s = (s \<noteq> [] \<and> (\<forall>ch \<in> set s. (48::nat) \<le> of_char ch \<and> (of_char ch :: nat) \<le> 57))"

definition int_of_str :: "string \<Rightarrow> int" where
  "int_of_str s = foldl (\<lambda>acc ch. 10 * acc + ((of_char ch :: int) - 48)) 0 s"

text \<open>
  The validation of the custom difficulty: the message of the ValueError raised,
  if any.  The test \<^verbatim>\<open>mines >= width * height * 0.8 - 9\<close> is taken over the reals:
  for integers the floating-point product \<^verbatim>\<open>n * 0.8\<close> is exact when \<open>4n/5\<close> is an
  integer and at least \<open>1/5\<close> away from every integer otherwise, so the
  comparison with an integer gives the same answer.
\<close>

definition validate_custom :: "string \<Rightarrow> string \<Rightarrow> string \<Rightarrow> string + (int \<times> int \<times> int)" where
  "validate_custom height_str width_str mines_str =
     (if \<not> (isdigit height_str \<and> isdigit width_str \<and> isdigit mines_str)
      then Inl ''Height, Width and Mines must be numeric''
      else
        (let h = int_of_str height_str; w = int_of_str width_str; m = int_of_str mines_str in
         if h < 4 \<or> w < 4 \<or> h > 100 \<or> w > 100
         then Inl ''The field is too small or big. Min/max value is 4/100.''
         else if (of_int m :: real) \<ge> of_int (w * h) * 0.8 - 9
         then Inl ''Mines count must be less than Width * Height * 0.8 - 9(for safe zone).''
         else if m < 1 then Inl ''Too few mines''
         else Inr (h, w, m)))"

text \<open>
  ConfigFrame.apply\_settings with the selections of the form as arguments.  The
  two assignments to \<^verbatim>\<open>config.config\<close> come first; a ValueError of the validation
  is caught and shown in a dialog; otherwise the document is written to
  config.json and read back (reload\_config).
\<close>

definition apply_settings :: "string \<Rightarrow> string \<Rightarrow> string \<Rightarrow> string \<Rightarrow> string \<Rightarrow> settings \<Rightarrow> settings" where
  "apply_settings selected_diff selected_theme height_str width_str mines_str s =
     (let c1 = (conf s)\<lparr>doc_current_diff := selected_diff, doc_current_theme := selected_theme\<rparr> in
      if selected_diff = ''custom'' then
        (case validate_custom height_str width_str mines_str of
           Inl msg \<Rightarrow> s\<lparr>conf := c1, dialogs := dialogs s @ [msg]\<rparr>
         | Inr (h, w, m) \<Rightarrow>
             (let c2 = c1\<lparr>custom_height := h, custom_width := w, custom_mines := m\<rparr> in
              s\<lparr>disk := c2, conf := c2\<rparr>))
      else s\<lparr>disk := c1, conf := c1\<rparr>)"

section \<open>Example games\<close>

text \<open>
  Sequencing of calls that may raise, and a 4 x 4 game with one mine on the
  custom difficulty, with the entries of the default dark theme that the grid
  code reads.
\<close>

definition then_do :: "error + game \<Rightarrow> (game \<Rightarrow> error + game) \<Rightarrow> error + game" where
  "then_do x f = (case x of Inl e \<Rightarrow> Inl e | Inr g \<Rightarrow> f g)"

definition dark_theme :: "string \<Rightarrow> string option" where
  "dark_theme = map_of [(''button_color'', ''#2C2C2C''), (''pressed_color'', ''#424242''),
     (''flag_color'', ''#FF7043''), (''mines_color'', ''#EF5350''), (''text_color'', ''#E0E0E0'')]"

definition dark_num_colors :: "string \<Rightarrow> string option" where
  "dark_num_colors = map_of [(''1'', ''#64B5F6''), (''2'', ''#81C784''), (''3'', ''#FFB74D''),
     (''4'', ''#BA68C8''), (''5'', ''#F06292''), (''6'', ''#4DD0E1''), (''7'', ''#BCAAA4''),
     (''8'', ''#90A4AE'')]"

definition custom44 :: config where
  "custom44 = \<lparr>current_diff = ''custom'', width = 4, height = 4, bombs = 1, best_time = 9999,
     theme = dark_theme, num_colors = dark_num_colors\<rparr>"

text \<open>The game after MinesweeperApp.\_\_init\_\_ and GreetScreen.start\_game.\<close>

definition fresh44 :: game where
  "fresh44 = do_field (reset_game \<lparr>cfg = custom44, saved = None, first_click = True,
     running = False, time_elapsed = 0, def_zone = [], field = [], buttons = [], all_cords = [],
     danger_cords = [], mines = 0, mines_label = ''Bombs: 1'', popups = []\<rparr>)"

text \<open>
  A first click on (2, 2) where the draw puts the mine on (0, 3), then a click
  on the mine.
\<close>

definition lost44 :: "error + game" where
  "lost44 = then_do (on_click [3] 2 2 fresh44) (on_click [] 0 3)"

text \<open>
  A flag on (0, 0), the first click on (2, 2) with the mine drawn on (0, 3), and
  the flag on (0, 0) taken off again.
\<close>

definition unflagged44 :: "error + game" where
  "unflagged44 = then_do (then_do (set_flag 0 0 fresh44) (on_click [3] 2 2)) (set_flag 0 0)"

text \<open>
  The settings state at start-up with the default document, and a form with the
  custom difficulty, the light theme and a height of 3.
\<close>

definition default_settings :: settings where
  "default_settings = \<lparr>conf = \<lparr>doc_current_diff = ''easy'', doc_current_theme = ''dark'',
        custom_height = 10, custom_width = 10, custom_mines = 1\<rparr>,
     disk = \<lparr>doc_current_diff = ''easy'', doc_current_theme = ''dark'',
        custom_height = 10, custom_width = 10, custom_mines = 1\<rparr>,
     dialogs = []\<rparr>"

section \<open>Two-dimensional lists: reading after writing\<close>

lemma grid_get_set_same:
  "grid_get f r c = Some x \<Longrightarrow> grid_get (grid_set f r c v) r c = Some v"
  by (auto simp: grid_get_def grid_set_def split: if_splits)

lemma grid_get_set_other:
  "grid_get f r c = Some x \<Longrightarrow> (r', c') \<noteq> (r, c) \<Longrightarrow>
     grid_get (grid_set f r c v) r' c' = grid_get f r' c'"
  by (auto simp: grid_get_def grid_set_def nth_list_update split: if_splits)

lemma grid_get_set:
  "grid_get f r c = Some x \<Longrightarrow>
     grid_get (grid_set f r c v) r' c' = (if r' = r \<and> c' = c then Some v else grid_get f r' c')"
  using grid_get_set_same[of f r c x v] grid_get_set_other[of f r c x r' c' v] by auto

lemma grid_set_set:
  "grid_set (grid_set f r c v) r c w = grid_set f r c w"
  by (cases "nat r < length f") (auto simp: grid_set_def list_update_beyond)

lemma grid_set_same:
  "grid_get f r c = Some x \<Longrightarrow> grid_set f r c x = f"
  by (auto simp: grid_get_def grid_set_def split: if_splits)

section \<open>The flag toggle\<close>

lemma set_flag_twice:
  assumes cl: "grid_get (field g) row col = Some cl" "\<not> revealed cl" "\<not> flagged cl"
    and b: "grid_get (buttons g) row col = Some b"
  shows "\<exists>g1. set_flag row col g = Inr g1 \<and>
     set_flag row col g1 = Inr (g\<lparr>buttons := grid_set (buttons g) row col (b\<lparr>fg_color := theme (cfg g) ''button_color''\<rparr>),
         mines_label := mines_text (mines g)\<rparr>)"
proof -
  let ?cl1 = "cl\<lparr>flagged := True\<rparr>"
  let ?g1 = "g\<lparr>field := grid_set (field g) row col ?cl1,
      buttons := grid_set (buttons g) row col (b\<lparr>fg_color := theme (cfg g) ''flag_color''\<rparr>),
      mines := mines g - 1, mines_label := mines_text (mines g - 1)\<rparr>"
  have 1: "set_flag row col g = Inr ?g1"
    using cl b by (simp add: set_flag_def configure_button_def)
  have e: "cl\<lparr>flagged := False\<rparr> = cl" using cl(3) by simp
  have fs: "grid_set (field g) row col (cl\<lparr>flagged := False\<rparr>) = field g"
    unfolding e by (rule grid_set_same[OF cl(1)])
  have 2: "set_flag row col ?g1 = Inr (g\<lparr>buttons := grid_set (buttons g) row col (b\<lparr>fg_color := theme (cfg g) ''button_color''\<rparr>),
         mines_label := mines_text (mines g)\<rparr>)"
    using cl b
    by (simp add: set_flag_def configure_button_def grid_get_set_same[OF cl(1)]
        grid_get_set_same[OF b] grid_set_set fs)
  show ?thesis using 1 2 by blast
qed

text \<open>
  C9, as the code has it.  For a hidden, unflagged cell whose button shows the
  theme's button colour, set\_flag twice first flags the cell and then restores
  the field, the buttons and the remaining-mines counter.
\<close>

theorem set_flag_roundtrip:
  assumes "grid_get (field g) row col = Some cl" "\<not> revealed cl" "\<not> flagged cl"
    and "grid_get (buttons g) row col = Some b"
    and "fg_color b = theme (cfg g) ''button_color''"
  shows "\<exists>g1 g2. set_flag row col g = Inr g1 \<and> set_flag row col g1 = Inr g2 \<and>
           grid_get (field g1) row col = Some (cl\<lparr>flagged := True\<rparr>) \<and>
           field g2 = field g \<and> buttons g2 = buttons g \<and> mines g2 = mines g"
proof -
  have "b\<lparr>fg_color := theme (cfg g) ''button_color''\<rparr> = b"
    using assms(5) by simp
  then have same: "grid_set (buttons g) row col (b\<lparr>fg_color := theme (cfg g) ''button_color''\<rparr>) = buttons g"
    using grid_set_same[OF assms(4)] by simp
  from set_flag_twice[OF assms(1-4)] obtain g1 where
    g1: "set_flag row col g = Inr g1" and
    g2: "set_flag row col g1 = Inr (g\<lparr>buttons := grid_set (buttons g) row col
           (b\<lparr>fg_color := theme (cfg g) ''button_color''\<rparr>), mines_label := mines_text (mines g)\<rparr>)"
    by blast
  have "grid_get (field g1) row col = Some (cl\<lparr>flagged := True\<rparr>)"
    using g1 assms(1-4)
    by (auto simp: set_flag_def configure_button_def grid_get_set_same split: option.splits)
  then show ?thesis using g1 g2 same by simp
qed

theorem set_flag_roundtrip_witness:
  "\<exists>g1 g2. set_flag 0 0 fresh44 = Inr g1 \<and> set_flag 0 0 g1 = Inr g2 \<and>
     grid_get (field g1) 0 0 = Some (new_cell\<lparr>flagged := True\<rparr>) \<and>
     field g2 = field fresh44 \<and> buttons g2 = buttons fresh44 \<and> mines g2 = mines fresh44"
proof -
  have 1: "grid_get (field fresh44) 0 0 = Some new_cell"
    by (simp add: fresh44_def do_field_def reset_game_def custom44_def grid_get_def)
  have 2: "grid_get (buttons fresh44) 0 0 = Some (new_button custom44)"
    by (simp add: fresh44_def do_field_def reset_game_def custom44_def grid_get_def)
  have 3: "fg_color (new_button custom44) = theme (cfg fresh44) ''button_color''"
    by (simp add: fresh44_def do_field_def reset_game_def new_button_def)
  show ?thesis
    by (rule set_flag_roundtrip[OF 1 _ _ 2 3]) (simp_all add: new_cell_def)
qed

text \<open>
  C9, as stated, fails on a mine that has been clicked: the cell stays hidden and
  unflagged, its button is painted in the mine colour, and the two toggles
  leave the button in the button colour.
\<close>

theorem set_flag_roundtrip_counterexample:
  "(case lost44 of Inl e \<Rightarrow> False
    | Inr g \<Rightarrow>
        (case grid_get (field g) 0 3 of None \<Rightarrow> False
         | Some cl \<Rightarrow> \<not> revealed cl \<and> \<not> flagged cl) \<and>
        (case then_do (set_flag 0 3 g) (set_flag 0 3) of Inl e \<Rightarrow> False
         | Inr g2 \<Rightarrow> grid_get (buttons g2) 0 3 \<noteq> grid_get (buttons g) 0 3))"
  by code_simp

section \<open>Reveal on a cell that is already revealed\<close>

text \<open>
  C7 at a state of the 4 x 4 game: the cell (1, 1) is revealed and has no mine
  around it, and reveal on it goes through try\_chord, reveals the hidden cell
  (0, 0) and wins the game.
\<close>

theorem reveal_on_revealed_zero_cell:
  "(case unflagged44 of Inl e \<Rightarrow> False
    | Inr g \<Rightarrow>
        (case grid_get (field g) 1 1 of None \<Rightarrow> False
         | Some cl \<Rightarrow> revealed cl \<and> neighbor_bombs cl = 0) \<and>
        (case reveal 1 1 g of Inl e \<Rightarrow> False
         | Inr g' \<Rightarrow> map (map revealed) (field g) \<noteq> map (map revealed) (field g') \<and>
                    all_cords g = [0] \<and> all_cords g' = [] \<and>
                    popups g = [] \<and> popups g' = [True]))"
  by code_simp

section \<open>Settings that fail the validation\<close>

text \<open>
  C6 at the default document: the form selects the custom difficulty and the
  light theme with a height of 3.  The validation fails, config.json and the
  custom entry stay as they are, and the in-memory document has taken the two
  selections.
\<close>

theorem apply_settings_invalid_custom:
  "validate_custom ''3'' ''10'' ''1'' = Inl ''The field is too small or big. Min/max value is 4/100.'' \<and>
   disk (apply_settings ''custom'' ''light'' ''3'' ''10'' ''1'' default_settings) = disk default_settings \<and>
   conf (apply_settings ''custom'' ''light'' ''3'' ''10'' ''1'' default_settings)
     = (conf default_settings)\<lparr>doc_current_diff := ''custom'', doc_current_theme := ''light''\<rparr> \<and>
   conf (apply_settings ''custom'' ''light'' ''3'' ''10'' ''1'' default_settings) \<noteq> conf default_settings"
  by (simp add: apply_settings_def validate_custom_def isdigit_def int_of_str_def default_settings_def)

section \<open>Mine placement on the first click\<close>

text \<open>
  A grid has the configured size, and the number of mines of a field.
\<close>

definition wf_grid :: "config \<Rightarrow> 'a list list \<Rightarrow> bool" where
  "wf_grid cf f = (length f = height cf \<and> (\<forall>row \<in> set f. length row = width cf))"

definition mine_count :: "game \<Rightarrow> nat" where
  "mine_count g = sum_list (map (\<lambda>row. length (filter bomb row)) (field g))"

lemma wf_grid_get:
  "wf_grid cf f \<Longrightarrow> in_bounds cf r c \<Longrightarrow> grid_get f r c = Some (f ! nat r ! nat c)"
  by (auto simp: wf_grid_def in_bounds_def grid_get_def)

lemma wf_grid_get_Some_in_bounds:
  assumes "wf_grid cf f" "grid_get f r c = Some x"
  shows "in_bounds cf r c"
proof -
  from grid_get_SomeD[OF assms(2)] have b: "0 \<le> r" "nat r < length f" "0 \<le> c" "nat c < length (f ! nat r)"
    by auto
  from b(2) assms(1) have "length (f ! nat r) = width cf" by (simp add: wf_grid_def)
  with b assms(1) show ?thesis by (auto simp: in_bounds_def wf_grid_def nat_less_iff)
qed

lemma wf_grid_get_None:
  "wf_grid cf f \<Longrightarrow> \<not> in_bounds cf r c \<Longrightarrow> grid_get f r c = None"
  using wf_grid_get_Some_in_bounds[of cf f r c] by (cases "grid_get f r c") auto

lemma wf_grid_set:
  "wf_grid cf f \<Longrightarrow> wf_grid cf (grid_set f r c v)"
proof (cases "nat r < length f")
  case True
  assume wf: "wf_grid cf f"
  with True have "length (f ! nat r) = width cf" by (simp add: wf_grid_def)
  with wf show ?thesis
    by (auto simp: wf_grid_def grid_set_def dest!: set_update_subset_insert[THEN subsetD])
next
  case False
  then show "wf_grid cf f \<Longrightarrow> ?thesis" by (simp add: grid_set_def list_update_beyond)
qed

lemma lin_div_mod:
  assumes "in_bounds cf r c"
  shows "(r * int (width cf) + c) div int (width cf) = r"
    and "(r * int (width cf) + c) mod int (width cf) = c"
  using assms by (auto simp: in_bounds_def)

lemma lin_in_bounds:
  assumes "0 \<le> x" "x < int (height cf * width cf)"
  shows "in_bounds cf (x div int (width cf)) (x mod int (width cf))"
proof -
  have w: "0 < int (width cf)" using assms by (cases "width cf = 0") auto
  have "x div int (width cf) < int (height cf)"
  proof (rule ccontr)
    assume "\<not> x div int (width cf) < int (height cf)"
    then have "int (height cf) * int (width cf) \<le> (x div int (width cf)) * int (width cf)"
      using w by (intro mult_right_mono) auto
    also have "\<dots> = x - x mod int (width cf)" by (simp add: minus_mod_eq_div_mult)
    also have "\<dots> \<le> x" using w by simp
    finally show False using assms by simp
  qed
  moreover have "0 \<le> x div int (width cf)" using assms w by (simp add: pos_imp_zdiv_nonneg_iff)
  ultimately show ?thesis using w by (simp add: in_bounds_def)
qed

lemma lin_range:
  assumes "in_bounds cf r c"
  shows "0 \<le> r * int (width cf) + c" "r * int (width cf) + c < int (height cf * width cf)"
proof -
  from assms have b: "0 \<le> r" "r + 1 \<le> int (height cf)" "0 \<le> c" "c < int (width cf)"
    by (auto simp: in_bounds_def)
  show "0 \<le> r * int (width cf) + c" using b by simp
  have "r * int (width cf) + c < (r + 1) * int (width cf)" using b by (simp add: algebra_simps)
  also have "\<dots> \<le> int (height cf) * int (width cf)"
    using b by (intro mult_right_mono) auto
  finally show "r * int (width cf) + c < int (height cf * width cf)" by simp
qed


lemma div_mod_pair_eq:
  "(r, c) = (x div w, x mod w) \<Longrightarrow> r * w + c = (x::int)"
  by simp

lemma set_bomb_fold:
  assumes "cfg g = cf" "wf_grid cf (field g)"
    and "\<forall>x \<in> set cs. 0 \<le> x \<and> x < int (height cf * width cf)"
    and "distinct cs"
    and "\<forall>x \<in> set cs. \<forall>cl. grid_get (field g) (x div int (width cf)) (x mod int (width cf)) = Some cl
           \<longrightarrow> \<not> bomb cl"
  shows "\<exists>f'. foldE set_bomb (map (\<lambda>cell. (cell div int (width cf), cell mod int (width cf))) cs) g
             = Inr (g\<lparr>field := f'\<rparr>) \<and>
           wf_grid cf f' \<and>
           mine_count (g\<lparr>field := f'\<rparr>) = mine_count g + length cs \<and>
           (\<forall>r c. r * int (width cf) + c \<notin> set cs \<longrightarrow> grid_get f' r c = grid_get (field g) r c)"
  using assms
proof (induction cs arbitrary: g)
  case Nil
  have "g\<lparr>field := field g\<rparr> = g" by simp
  with Nil show ?case by (intro exI[of _ "field g"]) (simp add: mine_count_def)
next
  case (Cons x cs)
  let ?w = "int (width cf)"
  let ?r = "x div ?w" and ?c = "x mod ?w"
  have ib: "in_bounds cf ?r ?c" using Cons.prems(3) by (intro lin_in_bounds) auto
  then obtain cl where cl: "grid_get (field g) ?r ?c = Some cl"
    using wf_grid_get[OF Cons.prems(2)] by blast
  have nb: "\<not> bomb cl" using Cons.prems(5) cl by simp
  let ?g1 = "g\<lparr>field := grid_set (field g) ?r ?c (cl\<lparr>bomb := True\<rparr>)\<rparr>"
  have sb: "set_bomb (?r, ?c) g = Inr ?g1" using cl by (simp add: set_bomb_def)
  have other: "grid_get (field ?g1) r c = grid_get (field g) r c" if "r * ?w + c \<noteq> x" for r c
  proof -
    have "(r, c) \<noteq> (?r, ?c)"
    proof
      assume "(r, c) = (?r, ?c)"
      then have "r * ?w + c = x" by simp
      with that show False by simp
    qed
    from grid_get_set_other[OF cl this] show ?thesis by simp
  qed
  have cnt: "mine_count ?g1 = mine_count g + 1"
    using grid_count_update[OF cl, of bomb "cl\<lparr>bomb := True\<rparr>"] nb by (simp add: mine_count_def)
  have "\<exists>f'. foldE set_bomb (map (\<lambda>cell. (cell div ?w, cell mod ?w)) cs) ?g1 = Inr (?g1\<lparr>field := f'\<rparr>) \<and>
           wf_grid cf f' \<and> mine_count (?g1\<lparr>field := f'\<rparr>) = mine_count ?g1 + length cs \<and>
           (\<forall>r c. r * ?w + c \<notin> set cs \<longrightarrow> grid_get f' r c = grid_get (field ?g1) r c)"
  proof (rule Cons.IH)
    show "cfg ?g1 = cf" using Cons.prems(1) by simp
    show "wf_grid cf (field ?g1)" using Cons.prems(2) by (simp add: wf_grid_set)
    show "\<forall>x \<in> set cs. 0 \<le> x \<and> x < int (height cf * width cf)" using Cons.prems(3) by simp
    show "distinct cs" using Cons.prems(4) by simp
    show "\<forall>y \<in> set cs. \<forall>cl. grid_get (field ?g1) (y div ?w) (y mod ?w) = Some cl \<longrightarrow> \<not> bomb cl"
    proof (intro ballI allI impI)
      fix y cl' assume y: "y \<in> set cs" and g1: "grid_get (field ?g1) (y div ?w) (y mod ?w) = Some cl'"
      have "y \<noteq> x" using y Cons.prems(4) by auto
      then have "y div ?w * ?w + y mod ?w \<noteq> x" by simp
      from other[OF this] g1 Cons.prems(5) y show "\<not> bomb cl'" by simp
    qed
  qed
  then obtain f' where f': "foldE set_bomb (map (\<lambda>cell. (cell div ?w, cell mod ?w)) cs) ?g1 = Inr (?g1\<lparr>field := f'\<rparr>)"
    "wf_grid cf f'" "mine_count (?g1\<lparr>field := f'\<rparr>) = mine_count ?g1 + length cs"
    "\<forall>r c. r * ?w + c \<notin> set cs \<longrightarrow> grid_get f' r c = grid_get (field ?g1) r c"
    by blast
  have eq: "?g1\<lparr>field := f'\<rparr> = g\<lparr>field := f'\<rparr>" by simp
  show ?case
  proof (intro exI[of _ f'] conjI allI impI)
    show "foldE set_bomb (map (\<lambda>cell. (cell div ?w, cell mod ?w)) (x # cs)) g = Inr (g\<lparr>field := f'\<rparr>)"
      using sb f'(1) eq by simp
    show "wf_grid cf f'" by fact
    show "mine_count (g\<lparr>field := f'\<rparr>) = mine_count g + length (x # cs)"
      using f'(3) cnt eq by simp
    fix r c assume "r * ?w + c \<notin> set (x # cs)"
    then show "grid_get f' r c = grid_get (field g) r c"
      using f'(4) other[of r c] by simp
  qed
qed


lemma length_filter_not_in:
  assumes "distinct xs"
  shows "length xs \<le> length (filter (\<lambda>x. x \<notin> set ys) xs) + length ys"
proof -
  have "length (filter (\<lambda>x. \<not> x \<notin> set ys) xs) = card (set (filter (\<lambda>x. \<not> x \<notin> set ys) xs))"
    by (rule distinct_card[symmetric]) (simp add: assms)
  also have "\<dots> \<le> card (set ys)" by (intro card_mono) auto
  also have "\<dots> \<le> length ys" by (rule card_length)
  finally show ?thesis
    using sum_length_filter_compl[of "\<lambda>x. x \<notin> set ys" xs] by simp
qed

lemma fresh_mine_count:
  assumes "\<forall>row \<in> set (field g). \<forall>cl \<in> set row. \<not> bomb cl"
  shows "mine_count g = 0"
  using assms by (simp add: mine_count_def)

lemma fresh_grid_get:
  assumes "\<forall>row \<in> set f. \<forall>cl \<in> set row. \<not> bomb cl" "grid_get f r c = Some cl"
  shows "\<not> bomb cl"
proof -
  from grid_get_SomeD[OF assms(2)] have "nat r < length f" "nat c < length (f ! nat r)"
    "cl = f ! nat r ! nat c" by auto
  then have "f ! nat r \<in> set f" "cl \<in> set (f ! nat r)" by auto
  with assms(1) show ?thesis by blast
qed

text \<open>
  C1.  On a field of the configured size without mines and with an empty
  \<open>def_zone\<close> (the state after reset\_game and do\_field), for a first click
  inside the grid, a mine count below \<open>W * H * 0.8 - 9\<close> and every possible
  draw of the sample: safe\_zone followed by place\_bombs raises nothing, the
  clicked cell and its in-bounds neighbours carry no mine, and exactly
  \<open>bombs\<close> cells carry one.
\<close>

theorem first_click_placement:
  assumes wf: "wf_grid (cfg g) (field g)"
    and fresh: "\<forall>row \<in> set (field g). \<forall>cl \<in> set row. \<not> bomb cl"
    and dz: "def_zone g = []"
    and click: "in_bounds (cfg g) row col"
    and m: "real (bombs (cfg g)) < real (width (cfg g)) * real (height (cfg g)) * 0.8 - 9"
    and idx: "choice_ok (filter (\<lambda>i. i \<notin> set (def_zone (safe_zone row col g)))
                  (map int [0 ..< height (cfg g) * width (cfg g)])) (bombs (cfg g)) idx"
  shows "\<exists>g'. place_bombs idx (safe_zone row col g) = Inr g' \<and>
           (\<forall>(dr, dc) \<in> set offs_dc_dr. in_bounds (cfg g) (row + dr) (col + dc) \<longrightarrow>
              (\<exists>cl. grid_get (field g') (row + dr) (col + dc) = Some cl \<and> \<not> bomb cl)) \<and>
           mine_count g' = bombs (cfg g)"
proof -
  let ?cf = "cfg g"
  let ?w = "int (width ?cf)"
  let ?g1 = "safe_zone row col g"
  let ?all = "map int [0 ..< height ?cf * width ?cf]"
  let ?danger = "filter (\<lambda>i. i \<notin> set (def_zone ?g1)) ?all"
  let ?coords = "map (\<lambda>i. ?danger ! i) idx"
  let ?g2 = "?g1\<lparr>danger_cords := ?danger, all_cords := filter (\<lambda>i. i \<notin> set ?coords) ?all\<rparr>"
  have g1: "cfg ?g1 = ?cf" "field ?g1 = field g" by (simp_all add: safe_zone_def)
  have dzlen: "length (def_zone ?g1) \<le> 9"
  proof -
    have "length (def_zone ?g1) \<le> length offs_dc_dr" by (simp add: safe_zone_def dz)
    then show ?thesis by (simp add: offs_dc_dr_def)
  qed
  have dall: "distinct ?all" by (simp add: distinct_map)
  have "real (width ?cf) * real (height ?cf) * 0.8 \<le> real (width ?cf) * real (height ?cf)"
    by (simp add: mult_left_le)
  with m have "real (bombs ?cf) + 9 \<le> real (height ?cf * width ?cf)" by (simp add: mult.commute)
  then have "bombs ?cf + 9 \<le> height ?cf * width ?cf"
    by (metis of_nat_add of_nat_le_iff of_nat_numeral)
  moreover have "length ?all \<le> length ?danger + length (def_zone ?g1)"
    by (rule length_filter_not_in[OF dall])
  ultimately have enough: "\<not> length ?danger < bombs ?cf" using dzlen by simp
  have ddanger: "distinct ?danger" using dall by simp
  from idx have ix: "length idx = bombs ?cf" "distinct idx" "\<forall>i \<in> set idx. i < length ?danger"
    by (simp_all add: choice_ok_def)
  have cdist: "distinct ?coords"
    using ix ddanger by (auto simp: distinct_map inj_on_def nth_eq_iff_index_eq)
  have csub: "set ?coords \<subseteq> set ?danger"
  proof
    fix x assume "x \<in> set ?coords"
    then obtain i where "i \<in> set idx" "x = ?danger ! i" by auto
    with ix(3) show "x \<in> set ?danger" using nth_mem[of i ?danger] by blast
  qed
  have crange: "\<forall>x \<in> set ?coords. 0 \<le> x \<and> x < int (height ?cf * width ?cf)"
  proof
    fix x assume "x \<in> set ?coords"
    with csub have "x \<in> set ?all" by auto
    then obtain n where "n < height ?cf * width ?cf" "x = int n" by auto
    then show "0 \<le> x \<and> x < int (height ?cf * width ?cf)"
      by (simp only: of_nat_less_iff of_nat_0_le_iff simp_thms)
  qed
  have "\<exists>f'. foldE set_bomb (map (\<lambda>cell. (cell div ?w, cell mod ?w)) ?coords) ?g2 = Inr (?g2\<lparr>field := f'\<rparr>) \<and>
           wf_grid ?cf f' \<and> mine_count (?g2\<lparr>field := f'\<rparr>) = mine_count ?g2 + length ?coords \<and>
           (\<forall>r c. r * ?w + c \<notin> set ?coords \<longrightarrow> grid_get f' r c = grid_get (field ?g2) r c)"
  proof (rule set_bomb_fold)
    show "cfg ?g2 = ?cf" using g1 by simp
    show "wf_grid ?cf (field ?g2)" using wf g1 by simp
    show "\<forall>x \<in> set ?coords. 0 \<le> x \<and> x < int (height ?cf * width ?cf)" by (rule crange)
    show "distinct ?coords" by (rule cdist)
    show "\<forall>x \<in> set ?coords. \<forall>cl. grid_get (field ?g2) (x div ?w) (x mod ?w) = Some cl \<longrightarrow> \<not> bomb cl"
      using fresh_grid_get[OF fresh] g1 by simp
  qed
  then obtain f' where f': "foldE set_bomb (map (\<lambda>cell. (cell div ?w, cell mod ?w)) ?coords) ?g2 = Inr (?g2\<lparr>field := f'\<rparr>)"
    "mine_count (?g2\<lparr>field := f'\<rparr>) = mine_count ?g2 + length ?coords"
    "\<forall>r c. r * ?w + c \<notin> set ?coords \<longrightarrow> grid_get f' r c = grid_get (field ?g2) r c"
    by blast
  have pb: "place_bombs idx ?g1 = Inr (?g2\<lparr>field := f'\<rparr>)"
    using enough f'(1) g1 by (simp add: place_bombs_def Let_def sample_def)
  have cnt: "mine_count (?g2\<lparr>field := f'\<rparr>) = bombs ?cf"
    using f'(2) fresh_mine_count[OF fresh] ix(1) g1 by (simp add: mine_count_def)
  have safe: "\<exists>cl. grid_get f' (row + dr) (col + dc) = Some cl \<and> \<not> bomb cl"
    if d: "(dr, dc) \<in> set offs_dc_dr" and ib: "in_bounds ?cf (row + dr) (col + dc)" for dr dc
  proof -
    have "(row + dr) * ?w + (col + dc) \<in> set (def_zone ?g1)"
      using d ib by (force simp: safe_zone_def dz)
    then have "(row + dr) * ?w + (col + dc) \<notin> set ?coords" using csub by auto
    with f'(3) have "grid_get f' (row + dr) (col + dc) = grid_get (field g) (row + dr) (col + dc)"
      using g1 by simp
    moreover obtain cl where "grid_get (field g) (row + dr) (col + dc) = Some cl"
      using wf_grid_get[OF wf ib] by blast
    ultimately show ?thesis using fresh_grid_get[OF fresh] by auto
  qed
  show ?thesis
    using pb cnt safe by (intro exI[of _ "?g2\<lparr>field := f'\<rparr>"]) auto
qed

theorem first_click_placement_witness:
  "\<exists>g'. place_bombs [3] (safe_zone 2 2 fresh44) = Inr g' \<and>
     (\<forall>(dr, dc) \<in> set offs_dc_dr. in_bounds (cfg fresh44) (2 + dr) (2 + dc) \<longrightarrow>
        (\<exists>cl. grid_get (field g') (2 + dr) (2 + dc) = Some cl \<and> \<not> bomb cl)) \<and>
     mine_count g' = bombs (cfg fresh44)"
proof -
  have c: "cfg fresh44 = custom44" "field fresh44 = replicate 4 (replicate 4 new_cell)"
    "def_zone fresh44 = []"
    by (simp_all add: fresh44_def do_field_def reset_game_def custom44_def)
  have 1: "wf_grid (cfg fresh44) (field fresh44)"
    by (simp add: c wf_grid_def custom44_def)
  have 2: "\<forall>row \<in> set (field fresh44). \<forall>cl \<in> set row. \<not> bomb cl"
    by (simp add: c new_cell_def)
  have 3: "in_bounds (cfg fresh44) 2 2"
    by (simp add: c in_bounds_def custom44_def)
  have 4: "real (bombs (cfg fresh44)) < real (width (cfg fresh44)) * real (height (cfg fresh44)) * 0.8 - 9"
    by (simp add: c custom44_def)
  have 5: "choice_ok (filter (\<lambda>i. i \<notin> set (def_zone (safe_zone 2 2 fresh44)))
             (map int [0 ..< height (cfg fresh44) * width (cfg fresh44)])) (bombs (cfg fresh44)) [3]"
    by (simp add: c choice_ok_def custom44_def safe_zone_def offs_dc_dr_def in_bounds_def upt_rec)
  show ?thesis by (rule first_click_placement[OF 1 2 c(3) 3 4 5])
qed

section \<open>Neighbour counts\<close>

text \<open>
  The count of the specification: the number of mine cells among the in-bounds
  cells of the eight neighbours of a cell.
\<close>

definition mine_at :: "game \<Rightarrow> int \<Rightarrow> int \<Rightarrow> bool" where
  "mine_at g r c = (case grid_get (field g) r c of None \<Rightarrow> False | Some cl \<Rightarrow> bomb cl)"

definition neighbours8 :: "(int \<times> int) list" where
  "neighbours8 = [(-1, -1), (-1, 0), (-1, 1), (0, -1), (0, 1), (1, -1), (1, 0), (1, 1)]"

definition mines_around :: "game \<Rightarrow> int \<Rightarrow> int \<Rightarrow> nat" where
  "mines_around g r c =
     length (filter (\<lambda>(dr, dc). in_bounds (cfg g) (r + dr) (c + dc) \<and> mine_at g (r + dr) (c + dc))
               neighbours8)"

lemma in_bounds_alt:
  "(0 \<le> r \<and> r < int (height cf) \<and> 0 \<le> c \<and> c < int (width cf)) = in_bounds cf r c"
  by (auto simp: in_bounds_def)

lemma count_bombs_around_wf:
  assumes "wf_grid (cfg g) (field g)"
  shows "count_bombs_around g r c ds k =
     Inr (k + length (filter (\<lambda>(dr, dc). in_bounds (cfg g) (r + dr) (c + dc) \<and> mine_at g (r + dr) (c + dc)) ds))"
proof (induction ds arbitrary: k)
  case Nil
  then show ?case by simp
next
  case (Cons d ds)
  obtain dr dc where d: "d = (dr, dc)" by (cases d)
  show ?case
  proof (cases "in_bounds (cfg g) (r + dr) (c + dc)")
    case True
    from wf_grid_get[OF assms True] obtain cl where cl: "grid_get (field g) (r + dr) (c + dc) = Some cl"
      by blast
    show ?thesis using True cl Cons.IH by (simp add: d mine_at_def Let_def in_bounds_alt)
  next
    case False
    then show ?thesis using Cons.IH by (simp add: d Let_def in_bounds_alt)
  qed
qed

lemma count_around_self:
  assumes "\<not> mine_at g r c"
  shows "length (filter (\<lambda>(dr, dc). in_bounds (cfg g) (r + dr) (c + dc) \<and> mine_at g (r + dr) (c + dc)) offs_dr_dc)
       = mines_around g r c"
  using assms by (simp add: offs_dr_dc_def neighbours8_def mines_around_def)

text \<open>
  What calculate\_neighbor\_bombs does to one cell: a cell without a mine gets
  the count, a mine cell is left as it is.
\<close>

definition with_count :: "game \<Rightarrow> int \<Rightarrow> int \<Rightarrow> cell \<Rightarrow> cell" where
  "with_count g r c cl = (if bomb cl then cl else cl\<lparr>neighbor_bombs := mines_around g r c\<rparr>)"

lemma with_count_bomb: "bomb (with_count g r c cl) = bomb cl"
  by (simp add: with_count_def)

lemma with_count_idem: "with_count g r c (with_count g r c cl) = with_count g r c cl"
  by (simp add: with_count_def)

lemma mines_around_cong:
  assumes "cfg g' = cfg g"
    and "\<And>r c. map_option bomb (grid_get (field g') r c) = map_option bomb (grid_get (field g) r c)"
  shows "mines_around g' r c = mines_around g r c"
proof -
  have "mine_at g' r c = mine_at g r c" for r c
    using assms(2)[of r c] by (auto simp: mine_at_def split: option.splits)
  then show ?thesis using assms(1) by (simp add: mines_around_def)
qed

lemma calc_cell_wf:
  assumes wf: "wf_grid (cfg g) (field g)" and ib: "in_bounds (cfg g) r c"
  shows "\<exists>cl. grid_get (field g) r c = Some cl \<and>
           calc_cell (r, c) g = Inr (g\<lparr>field := grid_set (field g) r c (with_count g r c cl)\<rparr>)"
proof -
  from wf_grid_get[OF wf ib] obtain cl where cl: "grid_get (field g) r c = Some cl" by blast
  show ?thesis
  proof (cases "bomb cl")
    case True
    have "g\<lparr>field := field g\<rparr> = g" by simp
    then show ?thesis using cl True grid_set_same[OF cl] by (simp add: calc_cell_def with_count_def)
  next
    case False
    then have nm: "\<not> mine_at g r c" using cl by (simp add: mine_at_def)
    show ?thesis
      using cl False count_bombs_around_wf[OF wf, of r c offs_dr_dc 0] count_around_self[OF nm]
      by (simp add: calc_cell_def with_count_def)
  qed
qed


lemma with_count_cong:
  "mines_around g' r c = mines_around g r c \<Longrightarrow> with_count g' r c = with_count g r c"
  by (rule ext) (simp add: with_count_def)

lemma calc_cell_fold:
  assumes "wf_grid (cfg g) (field g)" "\<forall>p \<in> set ps. in_bounds (cfg g) (fst p) (snd p)"
  shows "\<exists>f'. foldE calc_cell ps g = Inr (g\<lparr>field := f'\<rparr>) \<and> wf_grid (cfg g) f' \<and>
     (\<forall>r c. grid_get f' r c =
        (if (r, c) \<in> set ps then map_option (with_count g r c) (grid_get (field g) r c)
         else grid_get (field g) r c))"
  using assms
proof (induction ps arbitrary: g)
  case Nil
  have "g\<lparr>field := field g\<rparr> = g" by simp
  with Nil show ?case by (intro exI[of _ "field g"]) simp
next
  case (Cons p ps)
  obtain r c where p: "p = (r, c)" by (cases p)
  have ib: "in_bounds (cfg g) r c" using Cons.prems(2) p by simp
  from calc_cell_wf[OF Cons.prems(1) ib] obtain cl where cl: "grid_get (field g) r c = Some cl"
    and cc: "calc_cell (r, c) g = Inr (g\<lparr>field := grid_set (field g) r c (with_count g r c cl)\<rparr>)"
    by blast
  let ?f1 = "grid_set (field g) r c (with_count g r c cl)"
  let ?g1 = "g\<lparr>field := ?f1\<rparr>"
  have get1: "grid_get ?f1 r' c' = (if r' = r \<and> c' = c then Some (with_count g r c cl)
                 else grid_get (field g) r' c')" for r' c'
    by (rule grid_get_set[OF cl])
  have bombs1: "map_option bomb (grid_get (field ?g1) r' c') = map_option bomb (grid_get (field g) r' c')"
    for r' c'
    using cl by (simp add: get1 with_count_bomb)
  have ma: "mines_around ?g1 r' c' = mines_around g r' c'" for r' c'
    by (rule mines_around_cong) (simp_all only: bombs1, simp)
  have wc: "with_count ?g1 r' c' = with_count g r' c'" for r' c'
    by (rule with_count_cong) (rule ma)
  have "\<exists>f'. foldE calc_cell ps ?g1 = Inr (?g1\<lparr>field := f'\<rparr>) \<and> wf_grid (cfg ?g1) f' \<and>
     (\<forall>r c. grid_get f' r c =
        (if (r, c) \<in> set ps then map_option (with_count ?g1 r c) (grid_get (field ?g1) r c)
         else grid_get (field ?g1) r c))"
  proof (rule Cons.IH)
    show "wf_grid (cfg ?g1) (field ?g1)" using Cons.prems(1) by (simp add: wf_grid_set)
    show "\<forall>p \<in> set ps. in_bounds (cfg ?g1) (fst p) (snd p)" using Cons.prems(2) by simp
  qed
  then obtain f' where f0: "foldE calc_cell ps ?g1 = Inr (?g1\<lparr>field := f'\<rparr>)" "wf_grid (cfg ?g1) f'"
     "\<forall>r c. grid_get f' r c =
        (if (r, c) \<in> set ps then map_option (with_count ?g1 r c) (grid_get (field ?g1) r c)
         else grid_get (field ?g1) r c)"
    by blast
  have eq: "?g1\<lparr>field := f'\<rparr> = g\<lparr>field := f'\<rparr>" by simp
  have get': "grid_get f' r' c' =
        (if (r', c') \<in> set (p # ps) then map_option (with_count g r' c') (grid_get (field g) r' c')
         else grid_get (field g) r' c')" for r' c'
  proof (cases "r' = r \<and> c' = c")
    case True
    then show ?thesis using f0(3)[rule_format, of r c] cl
      by (simp add: wc get1 p with_count_idem)
  next
    case False
    then show ?thesis using f0(3)[rule_format, of r' c']
      by (auto simp: wc get1 p)
  qed
  show ?case
  proof (intro exI[of _ f'] conjI allI)
    show "foldE calc_cell (p # ps) g = Inr (g\<lparr>field := f'\<rparr>)"
      using cc f0(1) eq by (simp add: p)
    show "wf_grid (cfg g) f'" using f0(2) by simp
    show "grid_get f' r' c' =
        (if (r', c') \<in> set (p # ps) then map_option (with_count g r' c') (grid_get (field g) r' c')
         else grid_get (field g) r' c')" for r' c'
      by (rule get')
  qed
qed

lemma positions_in_bounds: "(r, c) \<in> set (positions cf) \<longleftrightarrow> in_bounds cf r c"
proof
  assume "(r, c) \<in> set (positions cf)"
  then show "in_bounds cf r c" by (auto simp: positions_def in_bounds_def)
next
  assume ib: "in_bounds cf r c"
  then have "nat r < height cf" "nat c < width cf" "r = int (nat r)" "c = int (nat c)"
    by (auto simp: in_bounds_def)
  then show "(r, c) \<in> set (positions cf)"
    by (auto simp: positions_def intro!: bexI[of _ "nat r"] image_eqI[of _ _ "nat c"])
qed

text \<open>
  C5.  On a field of the configured size calculate\_neighbor\_bombs raises
  nothing and changes only the field, which keeps its size; every cell of the
  grid without a mine becomes the same cell with its stored count set to the
  number of mines among its in-bounds eight neighbours, and every mine cell
  stays as it is.
\<close>

theorem neighbour_counts:
  assumes "wf_grid (cfg g) (field g)"
  shows "\<exists>f'. calculate_neighbor_bombs g = Inr (g\<lparr>field := f'\<rparr>) \<and> wf_grid (cfg g) f' \<and>
     (\<forall>r c. in_bounds (cfg g) r c \<longrightarrow>
        (\<exists>cl. grid_get (field g) r c = Some cl \<and>
              grid_get f' r c = Some (if bomb cl then cl
                                      else cl\<lparr>neighbor_bombs := mines_around g r c\<rparr>)))"
proof -
  have "\<forall>p \<in> set (positions (cfg g)). in_bounds (cfg g) (fst p) (snd p)"
    by (auto simp: positions_in_bounds)
  from calc_cell_fold[OF assms this] obtain f' where f':
    "foldE calc_cell (positions (cfg g)) g = Inr (g\<lparr>field := f'\<rparr>)" "wf_grid (cfg g) f'"
    "\<forall>r c. grid_get f' r c =
        (if (r, c) \<in> set (positions (cfg g)) then map_option (with_count g r c) (grid_get (field g) r c)
         else grid_get (field g) r c)"
    by blast
  have cells: "\<exists>cl. grid_get (field g) r c = Some cl \<and>
              grid_get f' r c = Some (if bomb cl then cl else cl\<lparr>neighbor_bombs := mines_around g r c\<rparr>)"
    if ib: "in_bounds (cfg g) r c" for r c
  proof -
    from wf_grid_get[OF assms ib] obtain cl where cl: "grid_get (field g) r c = Some cl" by blast
    then show ?thesis using f'(3)[rule_format, of r c] ib
      by (simp add: positions_in_bounds with_count_def)
  qed
  show ?thesis
  proof (intro exI[of _ f'] conjI allI impI)
    show "calculate_neighbor_bombs g = Inr (g\<lparr>field := f'\<rparr>)"
      using f'(1) by (simp add: calculate_neighbor_bombs_def)
    show "wf_grid (cfg g) f'" by fact
    show "\<exists>cl. grid_get (field g) r c = Some cl \<and>
              grid_get f' r c = Some (if bomb cl then cl else cl\<lparr>neighbor_bombs := mines_around g r c\<rparr>)"
      if "in_bounds (cfg g) r c" for r c
      using cells[OF that] .
  qed
qed

theorem neighbour_counts_witness:
  "\<exists>f'. calculate_neighbor_bombs
            (fresh44\<lparr>field := grid_set (field fresh44) 0 3 (new_cell\<lparr>bomb := True\<rparr>)\<rparr>)
          = Inr (fresh44\<lparr>field := grid_set (field fresh44) 0 3 (new_cell\<lparr>bomb := True\<rparr>)\<rparr>\<lparr>field := f'\<rparr>) \<and>
     wf_grid (cfg (fresh44\<lparr>field := grid_set (field fresh44) 0 3 (new_cell\<lparr>bomb := True\<rparr>)\<rparr>)) f' \<and>
     (\<forall>r c. in_bounds (cfg (fresh44\<lparr>field := grid_set (field fresh44) 0 3 (new_cell\<lparr>bomb := True\<rparr>)\<rparr>)) r c \<longrightarrow>
        (\<exists>cl. grid_get (field (fresh44\<lparr>field := grid_set (field fresh44) 0 3 (new_cell\<lparr>bomb := True\<rparr>)\<rparr>)) r c = Some cl \<and>
              grid_get f' r c = Some (if bomb cl then cl
                 else cl\<lparr>neighbor_bombs := mines_around
                   (fresh44\<lparr>field := grid_set (field fresh44) 0 3 (new_cell\<lparr>bomb := True\<rparr>)\<rparr>) r c\<rparr>)))"
proof -
  have "wf_grid (cfg fresh44) (field fresh44)"
    by (simp add: fresh44_def do_field_def reset_game_def custom44_def wf_grid_def)
  then have "wf_grid (cfg (fresh44\<lparr>field := grid_set (field fresh44) 0 3 (new_cell\<lparr>bomb := True\<rparr>)\<rparr>))
     (field (fresh44\<lparr>field := grid_set (field fresh44) 0 3 (new_cell\<lparr>bomb := True\<rparr>)\<rparr>))"
    by (simp add: wf_grid_set)
  then show ?thesis by (rule neighbour_counts)
qed

section \<open>Reasoning about the recursive reveal\<close>

text \<open>
  The equations of reveal and try\_chord are unfolded by hand only.  The first
  lemma is the induction over the four functions for a relation between the
  state before and after a call: a reflexive and transitive relation that holds
  across marking a cell and across the loss outcome holds across every call.
\<close>

declare reveal.simps [simp del] try_chord.simps [simp del]

lemma reveal_rel:
  assumes rf: "\<And>g. R g g" and tr: "\<And>a b c. R a b \<Longrightarrow> R b c \<Longrightarrow> R a c"
    and mark: "\<And>r c cl g g1. grid_get (field g) r c = Some cl \<Longrightarrow> \<not> bomb cl \<Longrightarrow> \<not> revealed cl \<Longrightarrow>
        \<not> flagged cl \<Longrightarrow> mark_revealed r c cl g = Inr g1 \<Longrightarrow> R g g1"
    and loss: "\<And>r c cl g g1. grid_get (field g) r c = Some cl \<Longrightarrow> bomb cl \<Longrightarrow> \<not> revealed cl \<Longrightarrow>
        \<not> flagged cl \<Longrightarrow> loss_outcome r c g = Inr g1 \<Longrightarrow> R g g1"
  shows "reveal r c g = Inr g' \<Longrightarrow> R g g'"
    and "reveal_nbrs r c ds g = Inr g' \<Longrightarrow> R g g'"
    and "try_chord r c g = Inr g' \<Longrightarrow> R g g'"
    and "chord_nbrs r c ds g = Inr g' \<Longrightarrow> R g g'"
proof (induction r c g and r c ds g and r c g and r c ds g arbitrary: g' and g' and g' and g'
    rule: reveal_reveal_nbrs_try_chord_chord_nbrs.induct)
  case (1 r c g)
  from "1.prems" obtain cl where cl: "grid_get (field g) r c = Some cl"
    by (subst (asm) reveal.simps) (auto split: option.splits)
  show ?case
  proof (cases "\<not> bomb cl \<and> \<not> revealed cl")
    case hid: True
    show ?thesis
    proof (cases "flagged cl")
      case True
      with hid cl "1.prems" have "g' = g" by (subst (asm) reveal.simps) simp
      then show ?thesis by (simp add: rf)
    next
      case False
      with hid cl "1.prems" obtain g1 where g1: "mark_revealed r c cl g = Inr g1"
        and rest: "(if neighbor_bombs cl = 0 then reveal_nbrs r c offs_dc_dr g1 else Inr g1) = Inr g'"
        by (subst (asm) reveal.simps) (auto split: sum.splits)
      have m: "R g g1" using mark[OF cl _ _ False g1] hid by simp
      show ?thesis
      proof (cases "neighbor_bombs cl = 0")
        case True
        with rest have "reveal_nbrs r c offs_dc_dr g1 = Inr g'" by simp
        from "1.IH"(1)[OF cl hid False g1 True this] m show ?thesis by (blast intro: tr)
      next
        case False
        with rest m show ?thesis by simp
      qed
    qed
  next
    case nh: False
    show ?thesis
    proof (cases "revealed cl")
      case True
      with nh cl "1.prems" have "try_chord r c g = Inr g'" by (subst (asm) reveal.simps) simp
      from "1.IH"(2)[OF cl nh True this] show ?thesis .
    next
      case False
      with nh have b: "bomb cl" by simp
      show ?thesis
      proof (cases "flagged cl")
        case True
        with nh False cl "1.prems" have "g' = g" by (subst (asm) reveal.simps) simp
        then show ?thesis by (simp add: rf)
      next
        case nf: False
        with nh False cl "1.prems" have "loss_outcome r c g = Inr g'"
          by (subst (asm) reveal.simps) simp
        from loss[OF cl b False nf this] show ?thesis .
      qed
    qed
  qed
next
  case (2 r c g)
  then show ?case by (simp add: rf)
next
  case (3 r c d ds g)
  show ?case
  proof (cases "in_bounds (cfg g) (r + fst d) (c + snd d)")
    case False
    with "3.prems" "3.IH"(4) show ?thesis by simp
  next
    case ib: True
    with "3.prems" obtain n where n: "grid_get (field g) (r + fst d) (c + snd d) = Some n"
      by (auto split: option.splits)
    show ?thesis
    proof (cases "revealed n")
      case True
      with "3.prems" ib n have "reveal_nbrs r c ds g = Inr g'" by simp
      from "3.IH"(3)[OF ib n _ this] True show ?thesis by simp
    next
      case False
      with "3.prems" ib n obtain g1 where g1: "reveal (r + fst d) (c + snd d) g = Inr g1"
        and rest: "reveal_nbrs r c ds g1 = Inr g'" by (auto split: sum.splits)
      from "3.IH"(1)[OF ib n False g1] "3.IH"(2)[OF ib n False g1 rest] show ?thesis by (rule tr)
    qed
  qed
next
  case (4 r c g)
  from "4.prems" obtain cl where cl: "grid_get (field g) r c = Some cl"
    by (subst (asm) try_chord.simps) (auto split: option.splits)
  show ?case
  proof (cases "revealed cl")
    case False
    with cl "4.prems" have "g' = g" by (subst (asm) try_chord.simps) simp
    then show ?thesis by (simp add: rf)
  next
    case True
    with cl "4.prems" obtain k where k: "count_flagged_around g r c offs_dr_dc 0 = Inr k"
      and rest: "(if k = neighbor_bombs cl then chord_nbrs r c offs_dr_dc g else Inr g) = Inr g'"
      by (subst (asm) try_chord.simps) (auto split: sum.splits)
    show ?thesis
    proof (cases "k = neighbor_bombs cl")
      case e: True
      with rest have "chord_nbrs r c offs_dr_dc g = Inr g'" by simp
      from "4.IH"[OF cl _ k e this] True show ?thesis by simp
    next
      case False
      with rest show ?thesis by (simp add: rf)
    qed
  qed
next
  case (5 r c g)
  then show ?case by (simp add: rf)
next
  case (6 r c d ds g)
  show ?case
  proof (cases "in_bounds (cfg g) (r + fst d) (c + snd d)")
    case False
    with "6.prems" "6.IH"(4) show ?thesis by simp
  next
    case ib: True
    with "6.prems" obtain n where n: "grid_get (field g) (r + fst d) (c + snd d) = Some n"
      by (auto split: option.splits)
    show ?thesis
    proof (cases "\<not> revealed n \<and> \<not> flagged n")
      case False
      with "6.prems" ib n have "chord_nbrs r c ds g = Inr g'" by auto
      from "6.IH"(3)[OF ib n False this] show ?thesis .
    next
      case True
      with "6.prems" ib n obtain g1 where g1: "reveal (r + fst d) (c + snd d) g = Inr g1"
        and rest: "chord_nbrs r c ds g1 = Inr g'" by (auto split: sum.splits)
      from "6.IH"(1)[OF ib n True g1] "6.IH"(2)[OF ib n True g1 rest] show ?thesis by (rule tr)
    qed
  qed
qed

section \<open>The invariant of a game in play\<close>

text \<open>
  The field and the buttons have the configured size; \<open>all_cords\<close> lists, once
  each, the linear coordinates of the hidden cells without a mine; a revealed
  cell carries neither a flag nor a mine.  \<open>pressed\<close> and \<open>marked\<close> name the
  button and the state that mark\_revealed produces before its win test.
\<close>

definition game_inv :: "game \<Rightarrow> bool" where
  "game_inv g = (wf_grid (cfg g) (field g) \<and> wf_grid (cfg g) (buttons g) \<and>
     distinct (all_cords g) \<and>
     (\<forall>x \<in> set (all_cords g). 0 \<le> x \<and> x < int (height (cfg g) * width (cfg g))) \<and>
     (\<forall>r c cl. in_bounds (cfg g) r c \<longrightarrow> grid_get (field g) r c = Some cl \<longrightarrow>
        ((r * int (width (cfg g)) + c \<in> set (all_cords g)) = (\<not> bomb cl \<and> \<not> revealed cl)) \<and>
        (revealed cl \<longrightarrow> \<not> flagged cl \<and> \<not> bomb cl)))"

lemma wf_grid_dims:
  "width cf' = width cf \<Longrightarrow> height cf' = height cf \<Longrightarrow> wf_grid cf' f = wf_grid cf f"
  by (simp add: wf_grid_def)

lemma in_bounds_dims:
  "width cf' = width cf \<Longrightarrow> height cf' = height cf \<Longrightarrow> in_bounds cf' r c = in_bounds cf r c"
  by (simp add: in_bounds_def)

lemma game_inv_cong:
  assumes "width (cfg g') = width (cfg g)" "height (cfg g') = height (cfg g)"
    "field g' = field g" "buttons g' = buttons g" "all_cords g' = all_cords g"
  shows "game_inv g' = game_inv g"
  using assms by (simp add: game_inv_def wf_grid_dims[OF assms(1,2)] in_bounds_dims[OF assms(1,2)])

lemma lin_inj:
  assumes "in_bounds cf r c" "in_bounds cf r' c'"
    "r * int (width cf) + c = r' * int (width cf) + c'"
  shows "r = r' \<and> c = c'"
proof -
  have "r = (r * int (width cf) + c) div int (width cf)"
    using lin_div_mod(1)[OF assms(1)] by simp
  also have "\<dots> = r'" unfolding assms(3) by (rule lin_div_mod(1)[OF assms(2)])
  finally have 1: "r = r'" .
  have "c = (r * int (width cf) + c) mod int (width cf)"
    using lin_div_mod(2)[OF assms(1)] by simp
  also have "\<dots> = c'" unfolding assms(3) by (rule lin_div_mod(2)[OF assms(2)])
  finally show ?thesis using 1 by simp
qed

lemma win_outcome_dims:
  "width (cfg (win_outcome g)) = width (cfg g)" "height (cfg (win_outcome g)) = height (cfg g)"
  by (simp_all add: win_outcome_def stop_timer_def check_best_def)

lemma win_outcome_parts:
  "buttons (win_outcome g) = buttons g" "all_cords (win_outcome g) = all_cords g"
  by (simp_all add: win_outcome_def stop_timer_def check_best_def)

definition pressed :: "config \<Rightarrow> cell \<Rightarrow> button \<Rightarrow> button" where
  "pressed cf cl b = (if neighbor_bombs cl \<ge> 1
       then b\<lparr>fg_color := theme cf ''pressed_color'',
              text_color := (case num_colors cf (str_nat (neighbor_bombs cl)) of
                               Some col \<Rightarrow> Some col | None \<Rightarrow> theme cf ''text_color''),
              btn_text := str_nat (neighbor_bombs cl)\<rparr>
       else b\<lparr>fg_color := theme cf ''pressed_color''\<rparr>)"

definition marked :: "int \<Rightarrow> int \<Rightarrow> cell \<Rightarrow> button \<Rightarrow> game \<Rightarrow> game" where
  "marked r c cl b g = g\<lparr>field := grid_set (field g) r c (cl\<lparr>revealed := True\<rparr>),
     all_cords := remove1 (r * int (width (cfg g)) + c) (all_cords g),
     buttons := grid_set (buttons g) r c (pressed (cfg g) cl b)\<rparr>"

lemma mark_revealed_eq:
  assumes "grid_get (buttons g) r c = Some b" "r * int (width (cfg g)) + c \<in> set (all_cords g)"
  shows "mark_revealed r c cl g =
     Inr (if all_cords (marked r c cl b g) = [] then win_outcome (marked r c cl b g)
          else marked r c cl b g)"
  using assms
  by (simp add: mark_revealed_def Let_def configure_button_def marked_def pressed_def)


lemma marked_inv:
  assumes inv: "game_inv g" and ib: "in_bounds (cfg g) r c"
    and cl: "grid_get (field g) r c = Some cl" "\<not> bomb cl" "\<not> flagged cl"
  shows "game_inv (marked r c cl b g)"
proof -
  let ?lin = "r * int (width (cfg g)) + c"
  let ?g1 = "marked r c cl b g"
  from inv have wf: "wf_grid (cfg g) (field g)" "wf_grid (cfg g) (buttons g)"
    and d: "distinct (all_cords g)"
    and rng: "\<forall>x \<in> set (all_cords g). 0 \<le> x \<and> x < int (height (cfg g) * width (cfg g))"
    and tr: "\<And>r c cl. in_bounds (cfg g) r c \<Longrightarrow> grid_get (field g) r c = Some cl \<Longrightarrow>
        ((r * int (width (cfg g)) + c \<in> set (all_cords g)) = (\<not> bomb cl \<and> \<not> revealed cl)) \<and>
        (revealed cl \<longrightarrow> \<not> flagged cl \<and> \<not> bomb cl)"
    by (simp_all add: game_inv_def)
  have parts: "cfg ?g1 = cfg g" "field ?g1 = grid_set (field g) r c (cl\<lparr>revealed := True\<rparr>)"
    "all_cords ?g1 = remove1 ?lin (all_cords g)"
    "buttons ?g1 = grid_set (buttons g) r c (pressed (cfg g) cl b)"
    by (simp_all add: marked_def)
  have s: "set (remove1 ?lin (all_cords g)) = set (all_cords g) - {?lin}"
    using d by (rule set_remove1_eq)
  have cells: "((r' * int (width (cfg g)) + c' \<in> set (remove1 ?lin (all_cords g))) = (\<not> bomb cl' \<and> \<not> revealed cl')) \<and>
        (revealed cl' \<longrightarrow> \<not> flagged cl' \<and> \<not> bomb cl')"
    if ib': "in_bounds (cfg g) r' c'"
      and g': "grid_get (grid_set (field g) r c (cl\<lparr>revealed := True\<rparr>)) r' c' = Some cl'" for r' c' cl'
  proof (cases "r' = r \<and> c' = c")
    case True
    with g' have "cl' = cl\<lparr>revealed := True\<rparr>" by (simp add: grid_get_set[OF cl(1)])
    with True cl show ?thesis by (simp add: s)
  next
    case False
    with g' have old: "grid_get (field g) r' c' = Some cl'" by (simp add: grid_get_set[OF cl(1)])
    have "r' * int (width (cfg g)) + c' \<noteq> ?lin"
      using lin_inj[OF ib' ib] False by blast
    with tr[OF ib' old] show ?thesis by (simp add: s)
  qed
  show ?thesis
    unfolding game_inv_def parts
  proof (intro conjI allI impI ballI)
    show "wf_grid (cfg g) (grid_set (field g) r c (cl\<lparr>revealed := True\<rparr>))"
      using wf(1) by (rule wf_grid_set)
    show "wf_grid (cfg g) (grid_set (buttons g) r c (pressed (cfg g) cl b))"
      using wf(2) by (rule wf_grid_set)
    show "distinct (remove1 ?lin (all_cords g))" using d by simp
    show "0 \<le> x" if "x \<in> set (remove1 ?lin (all_cords g))" for x
      using that rng s by simp
    show "x < int (height (cfg g) * width (cfg g))" if "x \<in> set (remove1 ?lin (all_cords g))" for x
      using that rng s by simp
    show "(r' * int (width (cfg g)) + c' \<in> set (remove1 ?lin (all_cords g))) = (\<not> bomb cl' \<and> \<not> revealed cl')"
      if "in_bounds (cfg g) r' c'" "grid_get (grid_set (field g) r c (cl\<lparr>revealed := True\<rparr>)) r' c' = Some cl'"
      for r' c' cl'
      using cells[OF that] by blast
    show "\<not> flagged cl'"
      if "in_bounds (cfg g) r' c'" "grid_get (grid_set (field g) r c (cl\<lparr>revealed := True\<rparr>)) r' c' = Some cl'"
        "revealed cl'" for r' c' cl'
      using cells[OF that(1,2)] that(3) by blast
    show "\<not> bomb cl'"
      if "in_bounds (cfg g) r' c'" "grid_get (grid_set (field g) r c (cl\<lparr>revealed := True\<rparr>)) r' c' = Some cl'"
        "revealed cl'" for r' c' cl'
      using cells[OF that(1,2)] that(3) by blast
  qed
qed

lemma mark_revealed_inv:
  assumes inv: "game_inv g" and ib: "in_bounds (cfg g) r c"
    and cl: "grid_get (field g) r c = Some cl" "\<not> bomb cl" "\<not> revealed cl" "\<not> flagged cl"
  shows "\<exists>g1. mark_revealed r c cl g = Inr g1 \<and> game_inv g1"
proof -
  from inv have wfb: "wf_grid (cfg g) (buttons g)" by (simp add: game_inv_def)
  from wf_grid_get[OF wfb ib] obtain b where b: "grid_get (buttons g) r c = Some b" by blast
  from inv ib cl have lin: "r * int (width (cfg g)) + c \<in> set (all_cords g)"
    by (simp add: game_inv_def)
  have m: "game_inv (marked r c cl b g)" by (rule marked_inv[OF inv ib cl(1,2,4)])
  have "game_inv (win_outcome (marked r c cl b g))"
    using m by (simp add: game_inv_cong[of "win_outcome (marked r c cl b g)" "marked r c cl b g"]
        win_outcome_dims win_outcome_parts win_outcome_field)
  with m show ?thesis by (simp add: mark_revealed_eq[OF b lin])
qed

lemma loss_outcome_eq:
  assumes "grid_get (buttons g) r c = Some b"
  shows "loss_outcome r c g = Inr (g\<lparr>popups := popups g @ [False], running := False,
     buttons := grid_set (buttons g) r c (b\<lparr>fg_color := theme (cfg g) ''mines_color''\<rparr>)\<rparr>)"
  using assms by (simp add: loss_outcome_def configure_button_def stop_timer_def)

lemma loss_outcome_inv:
  assumes inv: "game_inv g" and ib: "in_bounds (cfg g) r c"
  shows "\<exists>g1. loss_outcome r c g = Inr g1 \<and> game_inv g1"
proof -
  from inv have wfb: "wf_grid (cfg g) (buttons g)" by (simp add: game_inv_def)
  from wf_grid_get[OF wfb ib] obtain b where b: "grid_get (buttons g) r c = Some b" by blast
  have "game_inv (g\<lparr>popups := popups g @ [False], running := False,
     buttons := grid_set (buttons g) r c (b\<lparr>fg_color := theme (cfg g) ''mines_color''\<rparr>)\<rparr>)"
    using inv wf_grid_set[OF wfb] by (simp add: game_inv_def)
  then show ?thesis by (simp add: loss_outcome_eq[OF b])
qed

lemma reveal_inv:
  assumes "game_inv g"
  shows "reveal r c g = Inr g' \<Longrightarrow> game_inv g'"
    and "reveal_nbrs r c ds g = Inr g' \<Longrightarrow> game_inv g'"
    and "try_chord r c g = Inr g' \<Longrightarrow> game_inv g'"
    and "chord_nbrs r c ds g = Inr g' \<Longrightarrow> game_inv g'"
proof -
  let ?R = "\<lambda>g g'. game_inv g \<longrightarrow> game_inv g'"
  have mark: "?R g g1" if "grid_get (field g) r c = Some cl" "\<not> bomb cl" "\<not> revealed cl"
    "\<not> flagged cl" "mark_revealed r c cl g = Inr g1" for r c cl g g1
  proof
    assume inv: "game_inv g"
    then have "wf_grid (cfg g) (field g)" by (simp add: game_inv_def)
    from wf_grid_get_Some_in_bounds[OF this that(1)] have ib: "in_bounds (cfg g) r c" .
    from mark_revealed_inv[OF inv ib that(1-4)] that(5) show "game_inv g1" by auto
  qed
  have loss: "?R g g1" if "grid_get (field g) r c = Some cl" "loss_outcome r c g = Inr g1" for r c cl g g1
  proof
    assume inv: "game_inv g"
    then have "wf_grid (cfg g) (field g)" by (simp add: game_inv_def)
    from wf_grid_get_Some_in_bounds[OF this that(1)] have ib: "in_bounds (cfg g) r c" .
    from loss_outcome_inv[OF inv ib] that(2) show "game_inv g1" by auto
  qed
  show "reveal r c g = Inr g' \<Longrightarrow> game_inv g'"
    using reveal_rel(1)[of ?R r c g g'] mark loss assms by blast
  show "reveal_nbrs r c ds g = Inr g' \<Longrightarrow> game_inv g'"
    using reveal_rel(2)[of ?R r c ds g g'] mark loss assms by blast
  show "try_chord r c g = Inr g' \<Longrightarrow> game_inv g'"
    using reveal_rel(3)[of ?R r c g g'] mark loss assms by blast
  show "chord_nbrs r c ds g = Inr g' \<Longrightarrow> game_inv g'"
    using reveal_rel(4)[of ?R r c ds g g'] mark loss assms by blast
qed

lemma count_flagged_around_wf:
  assumes "wf_grid (cfg g) (field g)"
  shows "count_flagged_around g r c ds k =
     Inr (k + length (filter (\<lambda>(dr, dc). in_bounds (cfg g) (r + dr) (c + dc) \<and>
        (case grid_get (field g) (r + dr) (c + dc) of None \<Rightarrow> False | Some cl \<Rightarrow> flagged cl)) ds))"
proof (induction ds arbitrary: k)
  case Nil
  then show ?case by simp
next
  case (Cons d ds)
  obtain dr dc where d: "d = (dr, dc)" by (cases d)
  show ?case
  proof (cases "in_bounds (cfg g) (r + dr) (c + dc)")
    case True
    from wf_grid_get[OF assms True] obtain cl where cl: "grid_get (field g) (r + dr) (c + dc) = Some cl"
      by blast
    show ?thesis using True cl Cons.IH by (simp add: d Let_def in_bounds_alt)
  next
    case False
    then show ?thesis using Cons.IH by (simp add: d Let_def in_bounds_alt)
  qed
qed

text \<open>Under the invariant no call raises.\<close>

lemma reveal_returns:
  "game_inv g \<Longrightarrow> in_bounds (cfg g) r c \<Longrightarrow> \<exists>g'. reveal r c g = Inr g'"
  "game_inv g \<Longrightarrow> \<exists>g'. reveal_nbrs r c ds g = Inr g'"
  "game_inv g \<Longrightarrow> in_bounds (cfg g) r c \<Longrightarrow> \<exists>g'. try_chord r c g = Inr g'"
  "game_inv g \<Longrightarrow> \<exists>g'. chord_nbrs r c ds g = Inr g'"
proof (induction r c g and r c ds g and r c g and r c ds g
    rule: reveal_reveal_nbrs_try_chord_chord_nbrs.induct)
  case (1 r c g)
  from "1.prems" have wf: "wf_grid (cfg g) (field g)" by (simp add: game_inv_def)
  from wf_grid_get[OF wf "1.prems"(2)] obtain cl where cl: "grid_get (field g) r c = Some cl" by blast
  show ?case
  proof (cases "\<not> bomb cl \<and> \<not> revealed cl")
    case hid: True
    show ?thesis
    proof (cases "flagged cl")
      case True
      with hid cl show ?thesis by (subst reveal.simps) simp
    next
      case False
      from mark_revealed_inv[OF "1.prems" cl _ _ False] hid obtain g1 where
        g1: "mark_revealed r c cl g = Inr g1" and inv1: "game_inv g1" by auto
      show ?thesis
      proof (cases "neighbor_bombs cl = 0")
        case True
        from "1.IH"(1)[OF cl hid False g1 True inv1] obtain g' where
          "reveal_nbrs r c offs_dc_dr g1 = Inr g'" by blast
        with hid cl False g1 True show ?thesis by (subst reveal.simps) simp
      next
        case nz: False
        with hid cl False g1 show ?thesis by (subst reveal.simps) simp
      qed
    qed
  next
    case nh: False
    show ?thesis
    proof (cases "revealed cl")
      case True
      from "1.IH"(2)[OF cl nh True "1.prems"] obtain g' where "try_chord r c g = Inr g'" by blast
      with nh cl True show ?thesis by (subst reveal.simps) simp
    next
      case False
      show ?thesis
      proof (cases "flagged cl")
        case True
        with nh False cl show ?thesis by (subst reveal.simps) simp
      next
        case nf: False
        from loss_outcome_inv[OF "1.prems"] obtain g1 where "loss_outcome r c g = Inr g1" by blast
        with nh False nf cl show ?thesis by (subst reveal.simps) simp
      qed
    qed
  qed
next
  case (2 r c g)
  then show ?case by simp
next
  case (3 r c d ds g)
  from "3.prems" have wf: "wf_grid (cfg g) (field g)" by (simp add: game_inv_def)
  show ?case
  proof (cases "in_bounds (cfg g) (r + fst d) (c + snd d)")
    case False
    with "3.IH"(4)[OF False "3.prems"] show ?thesis by simp
  next
    case ib: True
    from wf_grid_get[OF wf ib] obtain n where n: "grid_get (field g) (r + fst d) (c + snd d) = Some n"
      by blast
    show ?thesis
    proof (cases "revealed n")
      case True
      with "3.IH"(3)[OF ib n _ "3.prems"] ib n show ?thesis by simp
    next
      case False
      from "3.IH"(1)[OF ib n False "3.prems" ib] obtain g1 where
        g1: "reveal (r + fst d) (c + snd d) g = Inr g1" by blast
      from reveal_inv(1)[OF "3.prems" g1] have inv1: "game_inv g1" .
      from "3.IH"(2)[OF ib n False g1 inv1] ib n False g1 show ?thesis by simp
    qed
  qed
next
  case (4 r c g)
  from "4.prems" have wf: "wf_grid (cfg g) (field g)" by (simp add: game_inv_def)
  from wf_grid_get[OF wf "4.prems"(2)] obtain cl where cl: "grid_get (field g) r c = Some cl" by blast
  obtain k where k: "count_flagged_around g r c offs_dr_dc 0 = Inr k"
    using count_flagged_around_wf[OF wf] by blast
  show ?case
  proof (cases "revealed cl \<and> k = neighbor_bombs cl")
    case True
    from "4.IH"[OF cl _ k _ "4.prems"(1)] True obtain g' where "chord_nbrs r c offs_dr_dc g = Inr g'"
      by auto
    with cl k True show ?thesis by (subst try_chord.simps) simp
  next
    case False
    with cl k show ?thesis by (subst try_chord.simps) auto
  qed
next
  case (5 r c g)
  then show ?case by simp
next
  case (6 r c d ds g)
  from "6.prems" have wf: "wf_grid (cfg g) (field g)" by (simp add: game_inv_def)
  show ?case
  proof (cases "in_bounds (cfg g) (r + fst d) (c + snd d)")
    case False
    with "6.IH"(4)[OF False "6.prems"] show ?thesis by simp
  next
    case ib: True
    from wf_grid_get[OF wf ib] obtain n where n: "grid_get (field g) (r + fst d) (c + snd d) = Some n"
      by blast
    show ?thesis
    proof (cases "\<not> revealed n \<and> \<not> flagged n")
      case False
      with "6.IH"(3)[OF ib n False "6.prems"] ib n show ?thesis by auto
    next
      case True
      from "6.IH"(1)[OF ib n True "6.prems" ib] obtain g1 where
        g1: "reveal (r + fst d) (c + snd d) g = Inr g1" by blast
      from reveal_inv(1)[OF "6.prems" g1] have inv1: "game_inv g1" .
      from "6.IH"(2)[OF ib n True g1 inv1] ib n True g1 show ?thesis by simp
    qed
  qed
qed

text \<open>
  No call increases the number of hidden cells; \<open>inv_check\<close> is the invariant
  as a test over the positions of the grid.
\<close>

lemma reveal_hidden_count:
  assumes "reveal r c g = Inr g'"
  shows "hidden_count g' \<le> hidden_count g"
proof (rule reveal_rel(1)[where R = "\<lambda>g g'. hidden_count g' \<le> hidden_count g", OF _ _ _ _ assms])
  show "hidden_count g1 \<le> hidden_count g" if "grid_get (field g) r c = Some cl" "\<not> revealed cl"
    "mark_revealed r c cl g = Inr g1" for r c cl g g1
    using mark_revealed_hidden_count[OF that(3,1,2)] by simp
  show "hidden_count g1 \<le> hidden_count g" if "loss_outcome r c g = Inr g1" for r c g g1
    using loss_outcome_field[OF that] by (simp add: hidden_count_def)
qed simp_all

definition inv_check :: "game \<Rightarrow> bool" where
  "inv_check g = (wf_grid (cfg g) (field g) \<and> wf_grid (cfg g) (buttons g) \<and>
     distinct (all_cords g) \<and>
     list_all (\<lambda>x. 0 \<le> x \<and> x < int (height (cfg g) * width (cfg g))) (all_cords g) \<and>
     list_all (\<lambda>p. case grid_get (field g) (fst p) (snd p) of
          None \<Rightarrow> True
        | Some cl \<Rightarrow> ((fst p * int (width (cfg g)) + snd p \<in> set (all_cords g))
                        = (\<not> bomb cl \<and> \<not> revealed cl)) \<and>
                     (revealed cl \<longrightarrow> \<not> flagged cl \<and> \<not> bomb cl))
       (positions (cfg g)))"

lemma inv_check_game_inv: "inv_check g \<Longrightarrow> game_inv g"
  unfolding inv_check_def game_inv_def list_all_iff
  by (intro conjI allI impI ballI; (elim conjE)?)
     (auto simp: positions_in_bounds[symmetric] split: option.splits)


definition mid44 :: game where
  "mid44 = (case unflagged44 of Inl e \<Rightarrow> fresh44 | Inr g \<Rightarrow> g)"

lemma mid44_inv: "game_inv mid44"
proof -
  have "inv_check mid44" by code_simp
  then show ?thesis by (rule inv_check_game_inv)
qed

lemma mid44_in_bounds: "in_bounds (cfg mid44) 0 0"
  by code_simp



section \<open>No cell is revealed and flagged\<close>

definition no_flag_on_revealed :: "game \<Rightarrow> bool" where
  "no_flag_on_revealed g =
     (\<forall>r c cl. grid_get (field g) r c = Some cl \<longrightarrow> revealed cl \<longrightarrow> \<not> flagged cl)"

lemma nfr_field_eq: "field g' = field g \<Longrightarrow> no_flag_on_revealed g' = no_flag_on_revealed g"
  by (simp add: no_flag_on_revealed_def)

lemma nfr_grid_set:
  assumes "no_flag_on_revealed g" "grid_get (field g) r c = Some cl"
    "revealed cl' \<longrightarrow> \<not> flagged cl'" "field g' = grid_set (field g) r c cl'"
  shows "no_flag_on_revealed g'"
  unfolding no_flag_on_revealed_def assms(4) grid_get_set[OF assms(2)]
  using assms(1,3) by (auto simp: no_flag_on_revealed_def)

lemma game_inv_nfr:
  assumes "game_inv g"
  shows "no_flag_on_revealed g"
  unfolding no_flag_on_revealed_def
proof (intro allI impI)
  fix r c cl assume cl: "grid_get (field g) r c = Some cl" and rv: "revealed cl"
  from assms have wf: "wf_grid (cfg g) (field g)" by (simp add: game_inv_def)
  from wf_grid_get_Some_in_bounds[OF wf cl] have ib: "in_bounds (cfg g) r c" .
  from assms ib cl rv show "\<not> flagged cl" unfolding game_inv_def by blast
qed

lemma foldE_preserves:
  assumes "\<And>x s s'. f x s = Inr s' \<Longrightarrow> P s \<Longrightarrow> P s'"
  shows "P s \<Longrightarrow> foldE f xs s = Inr s' \<Longrightarrow> P s'"
proof (induction xs arbitrary: s)
  case Nil
  then show ?case by simp
next
  case (Cons x xs)
  from Cons.prems(2) obtain s1 where s1: "f x s = Inr s1" and rest: "foldE f xs s1 = Inr s'"
    by (auto split: sum.splits)
  from Cons.IH[OF assms[OF s1 Cons.prems(1)] rest] show ?case .
qed

lemma reveal_nfr:
  assumes "no_flag_on_revealed g"
  shows "reveal r c g = Inr g' \<Longrightarrow> no_flag_on_revealed g'"
    and "try_chord r c g = Inr g' \<Longrightarrow> no_flag_on_revealed g'"
proof -
  let ?R = "\<lambda>g g'. no_flag_on_revealed g \<longrightarrow> no_flag_on_revealed g'"
  have mark: "?R g g1" if "grid_get (field g) r c = Some cl" "\<not> flagged cl"
    "mark_revealed r c cl g = Inr g1" for r c cl g g1
    using nfr_grid_set[OF _ that(1) _ mark_revealed_field[OF that(3)]] that(2) by simp
  have loss: "?R g g1" if "loss_outcome r c g = Inr g1" for r c g g1
    using nfr_field_eq[OF loss_outcome_field[OF that]] by simp
  show "reveal r c g = Inr g' \<Longrightarrow> no_flag_on_revealed g'"
    using reveal_rel(1)[where R = ?R, of r c g g'] mark loss assms by blast
  show "try_chord r c g = Inr g' \<Longrightarrow> no_flag_on_revealed g'"
    using reveal_rel(3)[where R = ?R, of r c g g'] mark loss assms by blast
qed

lemma set_flag_field:
  assumes "set_flag r c g = Inr g'" "grid_get (field g) r c = Some cl" "\<not> revealed cl"
  shows "field g' = grid_set (field g) r c (cl\<lparr>flagged := \<not> flagged cl\<rparr>)"
proof (cases "flagged cl")
  case True
  with assms obtain g2 where
    "configure_button r c (\<lambda>b. b\<lparr>fg_color := theme (cfg g) ''button_color''\<rparr>)
       (g\<lparr>field := grid_set (field g) r c (cl\<lparr>flagged := \<not> flagged cl\<rparr>)\<rparr>) = Inr g2"
    "g' = g2\<lparr>mines := mines g2 + 1, mines_label := mines_text (mines g2 + 1)\<rparr>"
    by (simp add: set_flag_def Let_def split: sum.splits)
  with configure_button_field[OF this(1)] show ?thesis by simp
next
  case False
  with assms obtain g2 where
    "configure_button r c (\<lambda>b. b\<lparr>fg_color := theme (cfg g) ''flag_color''\<rparr>)
       (g\<lparr>field := grid_set (field g) r c (cl\<lparr>flagged := \<not> flagged cl\<rparr>)\<rparr>) = Inr g2"
    "g' = g2\<lparr>mines := mines g2 - 1, mines_label := mines_text (mines g2 - 1)\<rparr>"
    by (simp add: set_flag_def Let_def split: sum.splits)
  with configure_button_field[OF this(1)] show ?thesis by simp
qed

lemma set_flag_nfr:
  assumes "no_flag_on_revealed g" "set_flag r c g = Inr g'"
  shows "no_flag_on_revealed g'"
proof -
  from assms(2) obtain cl where cl: "grid_get (field g) r c = Some cl"
    by (cases "grid_get (field g) r c") (simp_all add: set_flag_def)
  show ?thesis
  proof (cases "revealed cl")
    case True
    with assms cl show ?thesis by (simp add: set_flag_def)
  next
    case False
    from nfr_grid_set[OF assms(1) cl _ set_flag_field[OF assms(2) cl False]] False
    show ?thesis by simp
  qed
qed

lemma set_bomb_nfr:
  assumes "set_bomb rc g = Inr g'" "no_flag_on_revealed g"
  shows "no_flag_on_revealed g'"
proof -
  from assms(1) obtain cl where cl: "grid_get (field g) (fst rc) (snd rc) = Some cl"
    by (cases "grid_get (field g) (fst rc) (snd rc)") (simp_all add: set_bomb_def)
  with assms(1) have f: "field g' = grid_set (field g) (fst rc) (snd rc) (cl\<lparr>bomb := True\<rparr>)"
    by (auto simp: set_bomb_def)
  from assms(2) cl have "revealed cl \<longrightarrow> \<not> flagged cl" by (simp add: no_flag_on_revealed_def)
  with nfr_grid_set[OF assms(2) cl _ f] show ?thesis by simp
qed

lemma calc_cell_nfr:
  assumes "calc_cell rc g = Inr g'" "no_flag_on_revealed g"
  shows "no_flag_on_revealed g'"
proof -
  from assms(1) obtain cl where cl: "grid_get (field g) (fst rc) (snd rc) = Some cl"
    by (cases "grid_get (field g) (fst rc) (snd rc)") (simp_all add: calc_cell_def)
  from assms(2) cl have ok: "revealed cl \<longrightarrow> \<not> flagged cl" by (simp add: no_flag_on_revealed_def)
  show ?thesis
  proof (cases "bomb cl")
    case True
    with assms cl show ?thesis by (simp add: calc_cell_def)
  next
    case False
    with assms(1) cl obtain k where
      f: "field g' = grid_set (field g) (fst rc) (snd rc) (cl\<lparr>neighbor_bombs := k\<rparr>)"
      by (auto simp: calc_cell_def split: sum.splits)
    from nfr_grid_set[OF assms(2) cl _ f] ok show ?thesis by simp
  qed
qed

lemma place_bombs_nfr:
  assumes "place_bombs idx g = Inr g'" "no_flag_on_revealed g"
  shows "no_flag_on_revealed g'"
proof -
  from assms(1) obtain cs g2 where "foldE set_bomb cs g2 = Inr g'" "field g2 = field g"
    by (auto simp: place_bombs_def Let_def split: sum.splits)
  then show ?thesis
    using foldE_preserves[of set_bomb no_flag_on_revealed g2 cs g'] set_bomb_nfr
      nfr_field_eq[of g2 g] assms(2) by blast
qed

lemma calculate_nfr:
  assumes "calculate_neighbor_bombs g = Inr g'" "no_flag_on_revealed g"
  shows "no_flag_on_revealed g'"
  using foldE_preserves[of calc_cell no_flag_on_revealed g "positions (cfg g)" g'] calc_cell_nfr assms
  unfolding calculate_neighbor_bombs_def by blast

lemma reveal_zone_nfr:
  assumes "reveal_zone row col g = Inr g'" "no_flag_on_revealed g"
  shows "no_flag_on_revealed g'"
proof -
  let ?f = "\<lambda>d s. if in_bounds (cfg s) (row + fst d) (col + snd d)
                   then reveal (row + fst d) (col + snd d) s else Inr s"
  have step: "no_flag_on_revealed s'" if "?f x s = Inr s'" "no_flag_on_revealed s" for x s s'
    using that reveal_nfr(1)[OF that(2), of "row + fst x" "col + snd x" s']
    by (auto split: if_splits)
  show ?thesis
  proof (rule foldE_preserves[where f = ?f and P = no_flag_on_revealed and s = g and xs = offs_dc_dr])
    show "no_flag_on_revealed s'" if "?f x s = Inr s'" "no_flag_on_revealed s" for x s s'
      using step[OF that] .
    show "no_flag_on_revealed g" by (rule assms(2))
    show "foldE ?f offs_dc_dr g = Inr g'" using assms(1) by (simp add: reveal_zone_def)
  qed
qed

lemma on_click_nfr:
  assumes "on_click idx row col g = Inr g'" "no_flag_on_revealed g"
  shows "no_flag_on_revealed g'"
proof (cases "first_click g")
  case False
  with assms show ?thesis using reveal_nfr(1)[OF assms(2)] by (simp add: on_click_def)
next
  case True
  with assms(1) obtain g1 g2 where
    g1: "place_bombs idx ((safe_zone row col g)\<lparr>first_click := False\<rparr>) = Inr g1"
    and g2: "calculate_neighbor_bombs g1 = Inr g2"
    and g3: "reveal_zone row col (start_timer g2) = Inr g'"
    by (auto simp: on_click_def split: sum.splits)
  have "no_flag_on_revealed ((safe_zone row col g)\<lparr>first_click := False\<rparr>)"
    using assms(2) by (simp add: no_flag_on_revealed_def safe_zone_def)
  from place_bombs_nfr[OF g1 this] have "no_flag_on_revealed g1" .
  from calculate_nfr[OF g2 this] have "no_flag_on_revealed g2" .
  then have "no_flag_on_revealed (start_timer g2)"
    by (simp add: no_flag_on_revealed_def start_timer_def)
  from reveal_zone_nfr[OF g3 this] show ?thesis .
qed

text \<open>
  C10.  When no cell of the field is both revealed and flagged, the same holds
  after reveal, after try\_chord, after the flag toggle set\_flag and after
  on\_click (with the placement and the auto-reveal of the first click), for
  every cell position, every draw of the sample and every state the call
  returns.
\<close>

theorem revealed_never_flagged:
  assumes "no_flag_on_revealed g"
    and "op = reveal row col \<or> op = try_chord row col \<or> op = set_flag row col \<or>
         op = on_click idx row col"
    and "op g = Inr g'"
  shows "no_flag_on_revealed g'"
  using assms reveal_nfr[OF assms(1)] set_flag_nfr[OF assms(1)] on_click_nfr[OF _ assms(1)]
  by blast

theorem revealed_never_flagged_witness:
  "\<exists>g'. reveal 0 0 mid44 = Inr g' \<and> no_flag_on_revealed g'"
proof -
  note inv = mid44_inv
  from reveal_returns(1)[OF inv mid44_in_bounds] obtain g' where g': "reveal 0 0 mid44 = Inr g'"
    by blast
  have "no_flag_on_revealed g'"
    by (rule revealed_never_flagged[where op = "reveal 0 0" and row = 0 and col = 0 and g = mid44,
          OF game_inv_nfr[OF inv] _ g']) simp
  with g' show ?thesis by blast
qed

end
